theory Spec2Isabelle
  imports Complex_Main "HOL-Library.Multiset"
begin

section \<open>Blockly Games: Pattern -- the character grid and the match engine\<close>

text \<open>
  A shallow embedding of \<^verbatim>\<open>appengine/pattern/js/pattern.js\<close>. The grid
  \<^verbatim>\<open>Pattern.rowArray\<close> is a list of strings, a string is a list of characters
  (JavaScript's UTF-16 code units; the game only ever holds ASCII). Functions that
  mutate the global grid take it and return the new one. A thrown exception is a value
  of type \<open>error\<close>. Calls to \<^verbatim>\<open>Math.random()\<close> read an explicit, infinite
  sequence of the numbers it will return. Functions that only touch the document
  (highlighting, CSS transforms, audio) have no effect on the model state.
\<close>

subsection \<open>Configuration\<close>

definition CHAR_PER_ROW :: nat where
  "CHAR_PER_ROW = 10"

definition NUM_ROWS :: nat where
  "NUM_ROWS = 10"

definition REMOVED_CHAR_SYMBOL :: char where
  "REMOVED_CHAR_SYMBOL = CHR '' ''"

definition minChar :: nat where
  "minChar = 65"

definition maxChar :: nat where
  "maxChar = 90"

datatype error = SyntaxError | TypeError

type_synonym grid = "string list"

type_synonym location = "nat \<times> nat"

subsection \<open>Character generation\<close>

text \<open>
  The results of the successive calls of \<^verbatim>\<open>Math.random()\<close>; its contract is that
  each lies in the interval from 0 (inclusive) to 1 (exclusive). The numbers are taken
  as reals and \<open>generateCharacter_of\<close> multiplies them exactly, where the program
  multiplies IEEE doubles and rounds the product. At a rounding boundary the two can
  pick neighbouring letters: for the double nearest to 0.96 the exact product with 25
  is just below 24 (index 23), the rounded one is 24. The index is within the
  alphabet either way: the largest double below 1 times 25 rounds to a double below 25.
  Nothing proved below depends on which letter of the alphabet is drawn.
\<close>

type_synonym rng = "nat \<Rightarrow> real"

definition next_random :: "rng \<Rightarrow> real \<times> rng" where
  "next_random rnd = (rnd 0, \<lambda>n. rnd (Suc n))"

definition unit_interval :: "rng \<Rightarrow> bool" where
  "unit_interval rnd = (\<forall>n. 0 \<le> rnd n \<and> rnd n < 1)"

text \<open>\<^verbatim>\<open>String.prototype.charAt\<close>: the empty string when the index is out of range.\<close>

definition charAt :: "string \<Rightarrow> int \<Rightarrow> string" where
  "charAt s i = (if 0 \<le> i \<and> i < int (length s) then [s ! nat i] else [])"

text \<open>
  \<^verbatim>\<open>Pattern.generateCharacter\<close>, reading the global
  \<^verbatim>\<open>Pattern.POSSIBLE_ASCII_CHARACTERS\<close> (here \<open>possible\<close>) and one random number \<open>r\<close>:
  \<^verbatim>\<open>POSSIBLE.charAt(Math.floor(Math.random() * POSSIBLE.length))\<close>.
\<close>

definition generateCharacter_of :: "string \<Rightarrow> real \<Rightarrow> string" where
  "generateCharacter_of possible r = charAt possible \<lfloor>r * real (length possible)\<rfloor>"

text \<open>The first loop of \<^verbatim>\<open>createCharacterString\<close>: push \<open>stringLength\<close> generated characters.\<close>

fun generate_loop :: "string \<Rightarrow> nat \<Rightarrow> rng \<Rightarrow> string list \<times> rng" where
  "generate_loop possible 0 rnd = ([], rnd)"
| "generate_loop possible (Suc n) rnd =
     (let (r, rnd') = next_random rnd;
          (charArray, rnd'') = generate_loop possible n rnd'
      in (generateCharacter_of possible r # charArray, rnd''))"

text \<open>
  \<^verbatim>\<open>Pattern.createCharacterString(length, min, max)\<close>, with the value of the global
  \<^verbatim>\<open>POSSIBLE_ASCII_CHARACTERS\<close> at the time of the call as \<open>possible\<close>. The optional
  arguments \<open>min\<close> and \<open>max\<close> are \<open>None\<close> when the caller leaves them out; the second
  loop runs on \<open>min\<close> and \<open>max\<close> themselves, so it is empty then. Its bound is
  \<^verbatim>\<open>c < max\<close>. \<^verbatim>\<open>String.fromCharCode\<close> is \<open>char_of\<close> (on codes below 256).
\<close>

definition createCharacterString_of ::
  "string \<Rightarrow> nat \<Rightarrow> nat option \<Rightarrow> nat option \<Rightarrow> rng \<Rightarrow> string \<times> rng" where
  "createCharacterString_of possible stringLength min_arg max_arg rnd =
     (if possible \<noteq> [] then
        (let (charArray, rnd') = generate_loop possible stringLength rnd
         in (concat charArray, rnd'))
      else
        (case (min_arg, max_arg) of
           (Some lo, Some hi) \<Rightarrow> (map char_of [lo..<hi], rnd)
         | _ \<Rightarrow> ([], rnd)))"

text \<open>
  The module's load-time assignment: the global is still empty, so the second loop
  runs (it draws no random number).
\<close>

definition POSSIBLE_ASCII_CHARACTERS :: string where
  "POSSIBLE_ASCII_CHARACTERS =
     fst (createCharacterString_of [] (CHAR_PER_ROW * NUM_ROWS) (Some minChar) (Some maxChar)
            (\<lambda>n. 0))"

text \<open>After load the two functions read the assigned global.\<close>

definition generateCharacter :: "real \<Rightarrow> string" where
  "generateCharacter r = generateCharacter_of POSSIBLE_ASCII_CHARACTERS r"

definition createCharacterString ::
  "nat \<Rightarrow> nat option \<Rightarrow> nat option \<Rightarrow> rng \<Rightarrow> string \<times> rng" where
  "createCharacterString = createCharacterString_of POSSIBLE_ASCII_CHARACTERS"

subsection \<open>Populating the grid\<close>

text \<open>
  The effect of \<^verbatim>\<open>Pattern.generateCharDisplay\<close> on the grid: every row below
  \<^verbatim>\<open>NUM_ROWS\<close> that is missing or the empty string is assigned a generated row.
  \<open>fill_rows row n\<close> is the loop from \<open>row\<close> for \<open>n\<close> more rows; it starts at row 0, so
  a missing row is always the next one of the array.
\<close>

fun fill_rows :: "nat \<Rightarrow> nat \<Rightarrow> grid \<Rightarrow> rng \<Rightarrow> grid \<times> rng" where
  "fill_rows row 0 g rnd = (g, rnd)"
| "fill_rows row (Suc n) g rnd =
     (if row < length g \<and> g ! row \<noteq> [] then fill_rows (Suc row) n g rnd
      else
        (let (str, rnd') = createCharacterString CHAR_PER_ROW None None rnd
         in fill_rows (Suc row) n (if row < length g then g[row := str] else g @ [str]) rnd'))"

definition generateCharDisplay :: "grid \<Rightarrow> rng \<Rightarrow> grid \<times> rng" where
  "generateCharDisplay g rnd = fill_rows 0 NUM_ROWS g rnd"

subsection \<open>Removing matched characters\<close>

text \<open>
  \<^verbatim>\<open>String.prototype.replace\<close> with a string pattern: the first occurrence of \<open>pat\<close>
  in the subject is replaced by \<open>rep\<close> (which here holds no \<^verbatim>\<open>$\<close>).
\<close>

fun replace_first :: "string \<Rightarrow> string \<Rightarrow> string \<Rightarrow> string" where
  "replace_first pat rep [] = (if pat = [] then rep else [])"
| "replace_first pat rep (c # cs) =
     (if take (length pat) (c # cs) = pat then rep @ drop (length pat) (c # cs)
      else c # replace_first pat rep cs)"

text \<open>
  \<^verbatim>\<open>Pattern.removeCharacters(matchIndexes)\<close>. Reading a row that does not exist
  throws a TypeError; a column beyond the row reads \<^verbatim>\<open>undefined\<close>, which
  \<^verbatim>\<open>replace\<close> turns into the pattern string "undefined".
\<close>

fun removeCharacters :: "location list \<Rightarrow> grid \<Rightarrow> error + grid" where
  "removeCharacters [] g = Inr g"
| "removeCharacters ((row, col) # rest) g =
     (if row < length g then
        (let match = (if col < length (g ! row) then [g ! row ! col] else ''undefined'')
         in removeCharacters rest
              (g[row := replace_first match [REMOVED_CHAR_SYMBOL] (g ! row)]))
      else Inl TypeError)"

subsection \<open>Collapsing the gaps\<close>

text \<open>
  The column loop of \<^verbatim>\<open>Pattern.arrayShift\<close> on \<^verbatim>\<open>tempArrayTo\<close> and
  \<^verbatim>\<open>tempArrayFrom\<close>, returning both after \<^verbatim>\<open>join('')\<close>. Where the row above is
  shorter, the removed cell receives \<^verbatim>\<open>undefined\<close> (joined as nothing) and the row
  above grows by the removed symbol.
\<close>

fun shift_cols :: "string \<Rightarrow> string \<Rightarrow> string \<times> string" where
  "shift_cols [] from_row = ([], from_row)"
| "shift_cols (t # ts) [] =
     (let (ts', fs') = shift_cols ts []
      in if t = REMOVED_CHAR_SYMBOL then (ts', REMOVED_CHAR_SYMBOL # fs') else (t # ts', fs'))"
| "shift_cols (t # ts) (f # fs) =
     (let (ts', fs') = shift_cols ts fs
      in if t = REMOVED_CHAR_SYMBOL then (f # ts', REMOVED_CHAR_SYMBOL # fs')
         else (t # ts', f # fs'))"

text \<open>The row loop, from \<open>row\<close> down to 1.\<close>

fun shift_rows :: "nat \<Rightarrow> grid \<Rightarrow> grid" where
  "shift_rows 0 g = g"
| "shift_rows (Suc r) g =
     (let (to_row, from_row) = shift_cols (g ! Suc r) (g ! r)
      in shift_rows r (g[Suc r := to_row, r := from_row]))"

text \<open>The outer loop: \<open>i\<close> sweeps.\<close>

fun sweeps :: "nat \<Rightarrow> grid \<Rightarrow> grid" where
  "sweeps 0 g = g"
| "sweeps (Suc i) g = sweeps i (shift_rows (NUM_ROWS - 1) g)"

text \<open>
  \<^verbatim>\<open>Pattern.arrayShift\<close>. The first row read is \<^verbatim>\<open>NUM_ROWS - 1\<close>; if the grid has
  fewer rows, \<^verbatim>\<open>split\<close> of \<^verbatim>\<open>undefined\<close> throws before anything is written.
\<close>

definition arrayShift :: "grid \<Rightarrow> error + grid" where
  "arrayShift g = (if length g < NUM_ROWS then Inl TypeError else Inr (sweeps NUM_ROWS g))"

subsection \<open>Refilling\<close>

text \<open>The column loop of \<^verbatim>\<open>Pattern.replaceCharacters\<close> on \<^verbatim>\<open>tempArray\<close>.\<close>

fun replace_cols :: "string \<Rightarrow> rng \<Rightarrow> string list \<times> rng" where
  "replace_cols [] rnd = ([], rnd)"
| "replace_cols (c # cs) rnd =
     (if c = REMOVED_CHAR_SYMBOL then
        (let (r, rnd') = next_random rnd;
             (tempArray, rnd'') = replace_cols cs rnd'
         in (generateCharacter r # tempArray, rnd''))
      else
        (let (tempArray, rnd') = replace_cols cs rnd
         in ([c] # tempArray, rnd')))"

text \<open>The row loop, from \<open>row\<close> upwards for \<open>n\<close> rows.\<close>

fun replace_rows :: "nat \<Rightarrow> nat \<Rightarrow> grid \<Rightarrow> rng \<Rightarrow> grid \<times> rng" where
  "replace_rows row 0 g rnd = (g, rnd)"
| "replace_rows row (Suc n) g rnd =
     (let (tempArray, rnd') = replace_cols (g ! row) rnd
      in replace_rows (Suc row) n (g[row := concat tempArray]) rnd')"

text \<open>
  \<^verbatim>\<open>Pattern.replaceCharacters\<close>; a grid with fewer than \<^verbatim>\<open>NUM_ROWS\<close> rows makes it
  throw at the first missing row (the rows refilled before the throw are not kept in
  the error value).
\<close>

definition replaceCharacters :: "grid \<Rightarrow> rng \<Rightarrow> error + grid \<times> rng" where
  "replaceCharacters g rnd =
     (if length g < NUM_ROWS then Inl TypeError else Inr (replace_rows 0 NUM_ROWS g rnd))"

subsection \<open>The match engine\<close>

text \<open>
  \<^verbatim>\<open>RegExp\<close> is the platform's, not the repository's, so a compiled pattern is a
  parameter: a \<open>matcher\<close> \<open>m\<close> says for a subject \<open>s\<close> and a start position \<open>p\<close>
  whether the pattern matches there and, if so, where the match ends
  (\<open>m s p = Some e\<close>). \<open>search\<close> and \<open>exec\<close> follow ECMAScript's
  \<^verbatim>\<open>RegExp.prototype.exec\<close> for a pattern with the global flag: the start positions
  are tried from \<^verbatim>\<open>lastIndex\<close> up to the subject's length; a failure sets
  \<^verbatim>\<open>lastIndex\<close> to 0 and returns \<^verbatim>\<open>null\<close>; a success sets it to the match's end
  and returns the match, of which the program reads \<^verbatim>\<open>index\<close> and the matched text
  \<^verbatim>\<open>match[0]\<close>.
\<close>

type_synonym matcher = "string \<Rightarrow> nat \<Rightarrow> nat option"

function search :: "matcher \<Rightarrow> string \<Rightarrow> nat \<Rightarrow> (nat \<times> nat) option" where
  "search m s i =
     (if length s < i then None
      else (case m s i of Some e \<Rightarrow> Some (i, e) | None \<Rightarrow> search m s (Suc i)))"
  by pat_completeness auto
termination
  by (relation "measure (\<lambda>(m, s, i). Suc (length s) - i)") auto

declare search.simps [simp del]

definition exec :: "matcher \<Rightarrow> string \<Rightarrow> nat \<Rightarrow> (nat \<times> string) option \<times> nat" where
  "exec m s lastIndex =
     (case search m s lastIndex of
        None \<Rightarrow> (None, 0)
      | Some (i, e) \<Rightarrow> (Some (i, take (e - i) (drop i s)), e))"

text \<open>
  The matcher of a pattern made of literal characters only (such as \<^verbatim>\<open>A\<close> or
  \<^verbatim>\<open>AB\<close>): it matches at \<open>p\<close> when the pattern's text stands there.
\<close>

definition literal :: "string \<Rightarrow> matcher" where
  "literal pat s p =
     (if take (length pat) (drop p s) = pat then Some (p + length pat) else None)"

text \<open>
  The matcher of a starred character (such as \<^verbatim>\<open>A*\<close>): at every position it
  matches the longest run of the character, which may be empty.
\<close>

definition star :: "char \<Rightarrow> matcher" where
  "star c s p = Some (p + length (takeWhile (\<lambda>x. x = c) (drop p s)))"

text \<open>
  The innermost loop of \<^verbatim>\<open>Pattern.getMatches\<close>: one location per character of the
  match, \<^verbatim>\<open>column\<close> counting up from \<^verbatim>\<open>match.index\<close>.
\<close>

fun push_locations :: "nat \<Rightarrow> nat \<Rightarrow> nat \<Rightarrow> location list \<Rightarrow> location list" where
  "push_locations row column 0 matchLocations = matchLocations"
| "push_locations row column (Suc k) matchLocations =
     push_locations row (Suc column) k (matchLocations @ [(row, column)])"

text \<open>
  The \<^verbatim>\<open>while (match = userRegex.exec(Pattern.rowArray[row]))\<close> loop on one row. It
  need not end, so it is a partial function: \<open>None\<close> is the loop that runs forever.
  It returns the locations and the pattern object's \<^verbatim>\<open>lastIndex\<close>.
\<close>

partial_function (option) match_loop ::
  "matcher \<Rightarrow> string \<Rightarrow> nat \<Rightarrow> nat \<Rightarrow> location list \<Rightarrow> (location list \<times> nat) option" where
  "match_loop m s row lastIndex matchLocations =
     (case exec m s lastIndex of
        (None, lastIndex') \<Rightarrow> Some (matchLocations, lastIndex')
      | (Some (index, text), lastIndex') \<Rightarrow>
          match_loop m s row lastIndex'
            (push_locations row index (length text) matchLocations))"

text \<open>The loop over the rows, which share the one pattern object.\<close>

fun rows_loop ::
  "matcher \<Rightarrow> string list \<Rightarrow> nat \<Rightarrow> nat \<Rightarrow> location list \<Rightarrow> location list option" where
  "rows_loop m [] row lastIndex matchLocations = Some matchLocations"
| "rows_loop m (s # rest) row lastIndex matchLocations =
     (case match_loop m s row lastIndex matchLocations of
        None \<Rightarrow> None
      | Some (matchLocations', lastIndex') \<Rightarrow>
          rows_loop m rest (Suc row) lastIndex' matchLocations')"

text \<open>
  \<^verbatim>\<open>Pattern.getMatches\<close>. \<open>RegExp\<close> is the constructor
  \<^verbatim>\<open>new RegExp(userRegexString, 'g')\<close>: \<open>None\<close> when the string is not a pattern
  (a SyntaxError is thrown), else the compiled matcher, with \<^verbatim>\<open>lastIndex\<close> 0.
  The result is \<open>None\<close> when the function does not return.
\<close>

definition getMatches ::
  "(string \<Rightarrow> matcher option) \<Rightarrow> string \<Rightarrow> grid \<Rightarrow> (error + location list) option" where
  "getMatches RegExp userRegexString rowArray =
     (case RegExp userRegexString of
        None \<Rightarrow> Some (Inl SyntaxError)
      | Some userRegex \<Rightarrow> map_option Inr (rows_loop userRegex rowArray 0 0 []))"

subsection \<open>One play cycle\<close>

text \<open>
  The state a cycle reads and writes: the grid, whether the run button is disabled,
  and the callbacks handed to \<^verbatim>\<open>setTimeout\<close> that have not run yet (with their
  delays in milliseconds).
\<close>

datatype callback = RemoveShiftReplace "location list" | Redisplay

record state =
  rowArray :: grid
  runButton_disabled :: bool
  timeouts :: "(nat \<times> callback) list"

datatype outcome = Returned | Threw error

text \<open>
  \<^verbatim>\<open>Pattern.reset\<close> enables the run button again (and clears the pattern display).
\<close>

definition reset :: "state \<Rightarrow> state" where
  "reset st = st\<lparr>runButton_disabled := False\<rparr>"

text \<open>
  \<^verbatim>\<open>Pattern.execute\<close>, up to its return: the two callbacks are scheduled, not run.
  An exception of \<^verbatim>\<open>getMatches\<close> leaves the function at once.
  \<^verbatim>\<open>highlightMatches\<close> only adds a class name to the display element of each
  location; the element it looks up has the last two digits of
  \<^verbatim>\<open>row * NUM_ROWS + col\<close> in its id and is one of the hundred that
  \<^verbatim>\<open>generateCharDisplay\<close> creates.
\<close>

definition execute ::
  "(string \<Rightarrow> matcher option) \<Rightarrow> string \<Rightarrow> state \<Rightarrow> (outcome \<times> state) option" where
  "execute RegExp userRegexString st =
     (case getMatches RegExp userRegexString (rowArray st) of
        None \<Rightarrow> None
      | Some (Inl err) \<Rightarrow> Some (Threw err, st)
      | Some (Inr matchLocations) \<Rightarrow>
          (if matchLocations \<noteq> [] then
             Some (Returned,
               st\<lparr>timeouts := timeouts st @
                 [(1000, RemoveShiftReplace matchLocations), (2000, Redisplay)]\<rparr>)
           else Some (Returned, reset st)))"

text \<open>\<^verbatim>\<open>Pattern.runButtonClick\<close>: disable the button, then execute.\<close>

definition runButtonClick ::
  "(string \<Rightarrow> matcher option) \<Rightarrow> string \<Rightarrow> state \<Rightarrow> (outcome \<times> state) option" where
  "runButtonClick RegExp userRegexString st =
     execute RegExp userRegexString (st\<lparr>runButton_disabled := True\<rparr>)"

subsection \<open>Notions used in the statements\<close>

text \<open>A well-formed grid: \<^verbatim>\<open>NUM_ROWS\<close> rows of \<^verbatim>\<open>CHAR_PER_ROW\<close> characters each.\<close>

definition wf_grid :: "grid \<Rightarrow> bool" where
  "wf_grid g = (length g = NUM_ROWS \<and> list_all (\<lambda>row. length row = CHAR_PER_ROW) g)"

text \<open>Column \<open>c\<close> of a grid, from the top row to the bottom row.\<close>

definition column :: "nat \<Rightarrow> grid \<Rightarrow> string" where
  "column c g = map (\<lambda>row. row ! c) g"

text \<open>Match locations that name cells of the grid, and a grid without removed cells.\<close>

definition in_grid :: "location list \<Rightarrow> bool" where
  "in_grid ms = list_all (\<lambda>(row, col). row < NUM_ROWS \<and> col < CHAR_PER_ROW) ms"

definition no_sentinel :: "grid \<Rightarrow> bool" where
  "no_sentinel g = list_all (\<lambda>row. REMOVED_CHAR_SYMBOL \<notin> set row) g"

text \<open>
  What one sweep of \<open>shift_rows\<close> does to a single column (a proof device: the
  program works on rows, \<open>shift_rows_column\<close> below links the two).
\<close>

fun col_shift :: "nat \<Rightarrow> string \<Rightarrow> string" where
  "col_shift 0 xs = xs"
| "col_shift (Suc r) xs =
     col_shift r (if xs ! Suc r = REMOVED_CHAR_SYMBOL
                  then xs[Suc r := xs ! r, r := REMOVED_CHAR_SYMBOL] else xs)"

definition settle :: "string \<Rightarrow> string" where
  "settle xs = col_shift (length xs - 1) xs"

text \<open>
  The three grid operations in the order the first timeout callback of
  \<^verbatim>\<open>Pattern.execute\<close> calls them; an exception ends the sequence.
\<close>

definition remove_collapse_refill :: "location list \<Rightarrow> grid \<Rightarrow> rng \<Rightarrow> error + grid \<times> rng" where
  "remove_collapse_refill ms g rnd =
     (case removeCharacters ms g of
        Inl err \<Rightarrow> Inl err
      | Inr g1 \<Rightarrow>
          (case arrayShift g1 of
             Inl err \<Rightarrow> Inl err
           | Inr g2 \<Rightarrow> replaceCharacters g2 rnd))"

text \<open>
  The match engine as the specification words it: on one row, from position \<open>pos\<close>,
  take the next match, then go on from its end; the scan stops when there is no further
  match (or when a match would not move the position, which the specification leaves
  open). \<open>scan\<close> gives the matches as (start, end) pairs, \<open>locations_of\<close> one
  location per character of each, \<open>findMatches\<close> the rows in index order.
\<close>

function scan :: "matcher \<Rightarrow> string \<Rightarrow> nat \<Rightarrow> (nat \<times> nat) list" where
  "scan m s pos =
     (case search m s pos of
        None \<Rightarrow> []
      | Some (i, e) \<Rightarrow> if pos < e then (i, e) # scan m s e else [])"
  by pat_completeness auto
termination
proof (relation "measure (\<lambda>(m, s, pos). Suc (length s) - pos)")
  show "wf (measure (\<lambda>(m :: matcher, s :: string, pos). Suc (length s) - pos))"
    by simp
next
  fix m :: matcher and s :: string and pos x i e
  assume "search m s pos = Some x" "(i, e) = x" "pos < e"
  then have "\<not> length s < pos"
    by (auto simp: search.simps[of m s pos] split: if_splits)
  then show "((m, s, e), (m, s, pos)) \<in> measure (\<lambda>(m, s, pos). Suc (length s) - pos)"
    using \<open>pos < e\<close> by simp
qed

declare scan.simps [simp del]

definition locations_of :: "nat \<Rightarrow> (nat \<times> nat) list \<Rightarrow> location list" where
  "locations_of row spans = concat (map (\<lambda>(i, e). map (Pair row) [i..<e]) spans)"

definition findMatches :: "matcher \<Rightarrow> grid \<Rightarrow> location list" where
  "findMatches m g =
     concat (map (\<lambda>(row, s). locations_of row (scan m s 0)) (enumerate 0 g))"

text \<open>
  What the platform guarantees of a compiled pattern: a match that starts inside the
  subject (or at its end) ends at or after its start, and inside the subject.
\<close>

definition regexp_contract :: "matcher \<Rightarrow> bool" where
  "regexp_contract m =
     (\<forall>s p e. p \<le> length s \<and> m s p = Some e \<longrightarrow> p \<le> e \<and> e \<le> length s)"

text \<open>A grid for the examples: removed cells stacked in column 1, one in column 2.\<close>

definition example_grid :: grid where
  "example_grid =
     [''ABACABDEFG'', ''KLMNOPQRST'', ''U WXYABCDE'', ''F HIJKLMNO'', ''PQRSTUVWXY'',
      ''AB DEFGHIJ'', ''KLMNOPQRST'', ''U WXYABCDE'', ''FGHIJKLMNO'', ''PQRSTUVWXY'']"

text \<open>
  The order of the locations in a result: by row, and within a row by column.
\<close>

definition loc_less :: "location \<Rightarrow> location \<Rightarrow> bool" where
  "loc_less a b = (fst a < fst b \<or> (fst a = fst b \<and> snd a < snd b))"

text \<open>
  A grid as it stands between two cycles (no removed cell), and the state of the page
  waiting for a click on it.
\<close>

definition full_grid :: grid where
  "full_grid =
     [''ABACABDEFG'', ''KLMNOPQRST'', ''UVWXYCDEFG'', ''HIJKLMNOPQ'', ''RSTUVWXYCD'',
      ''EFGHIJKLMN'', ''OPQRSTUVWX'', ''YCDEFGHIJK'', ''LMNOPQRSTU'', ''VWXYCDEFGH'']"

definition idle_state :: state where
  "idle_state = \<lparr>rowArray = full_grid, runButton_disabled = False, timeouts = []\<rparr>"

section \<open>Character generation: the alphabet\<close>

lemma POSSIBLE_value: "POSSIBLE_ASCII_CHARACTERS = ''ABCDEFGHIJKLMNOPQRSTUVWXY''"
  unfolding POSSIBLE_ASCII_CHARACTERS_def createCharacterString_of_def minChar_def maxChar_def
  by code_simp

lemma sentinel_not_possible: "REMOVED_CHAR_SYMBOL \<notin> set POSSIBLE_ASCII_CHARACTERS"
  by (simp add: POSSIBLE_value REMOVED_CHAR_SYMBOL_def)

lemma charAt_subset: "set (charAt s i) \<subseteq> set s"
  by (auto simp: charAt_def)

lemma generateCharacter_of_subset: "set (generateCharacter_of possible r) \<subseteq> set possible"
  unfolding generateCharacter_of_def by (rule charAt_subset)

lemma generateCharacter_of_unit:
  assumes "0 \<le> r" "r < 1" "possible \<noteq> []"
  shows "\<exists>c\<in>set possible. generateCharacter_of possible r = [c]"
proof -
  let ?n = "length possible"
  have pos: "0 < real ?n" using assms(3) by simp
  have lo: "0 \<le> \<lfloor>r * real ?n\<rfloor>" using assms(1) by simp
  have "r * real ?n < real ?n" using assms(2) pos by simp
  then have hi: "\<lfloor>r * real ?n\<rfloor> < int ?n" by (simp add: floor_less_iff)
  from lo hi have "nat \<lfloor>r * real ?n\<rfloor> < ?n" by linarith
  then have "possible ! nat \<lfloor>r * real ?n\<rfloor> \<in> set possible" by simp
  with lo hi show ?thesis
    by (simp add: generateCharacter_of_def charAt_def)
qed

lemma generateCharacter_subset: "set (generateCharacter r) \<subseteq> set POSSIBLE_ASCII_CHARACTERS"
  unfolding generateCharacter_def by (rule generateCharacter_of_subset)

lemma generateCharacter_no_sentinel: "REMOVED_CHAR_SYMBOL \<notin> set (generateCharacter r)"
  using generateCharacter_subset sentinel_not_possible by blast

lemma generateCharacter_unit:
  assumes "0 \<le> r" "r < 1"
  shows "\<exists>c\<in>set POSSIBLE_ASCII_CHARACTERS. generateCharacter r = [c]"
  unfolding generateCharacter_def
  by (rule generateCharacter_of_unit[OF assms]) (simp add: POSSIBLE_value)

lemma unit_interval_next: "unit_interval rnd \<Longrightarrow> unit_interval (snd (next_random rnd))"
  by (simp add: unit_interval_def next_random_def)

lemma unit_interval_fst: "unit_interval rnd \<Longrightarrow> 0 \<le> fst (next_random rnd) \<and> fst (next_random rnd) < 1"
  by (simp add: unit_interval_def next_random_def)

lemma generate_loop_subset: "set (concat (fst (generate_loop possible n rnd))) \<subseteq> set possible"
proof (induction n arbitrary: rnd)
  case 0
  show ?case by simp
next
  case (Suc n)
  show ?case
    using Suc.IH[of "snd (next_random rnd)"] generateCharacter_of_subset[of possible "fst (next_random rnd)"]
    by (simp add: split_beta)
qed

lemma createCharacterString_subset:
  "set (fst (createCharacterString n a b rnd)) \<subseteq> set POSSIBLE_ASCII_CHARACTERS"
proof -
  have ne: "POSSIBLE_ASCII_CHARACTERS \<noteq> []" by (simp add: POSSIBLE_value)
  show ?thesis
    using generate_loop_subset[of POSSIBLE_ASCII_CHARACTERS n rnd] ne
    by (simp add: createCharacterString_def createCharacterString_of_def split_beta)
qed

lemma createCharacterString_no_sentinel:
  "REMOVED_CHAR_SYMBOL \<notin> set (fst (createCharacterString n a b rnd))"
  using createCharacterString_subset sentinel_not_possible by blast

lemma replace_cols_no_sentinel:
  "REMOVED_CHAR_SYMBOL \<notin> set (concat (fst (replace_cols row rnd)))"
proof (induction row arbitrary: rnd)
  case Nil
  show ?case by simp
next
  case (Cons c cs)
  show ?case
    using Cons.IH[of rnd] Cons.IH[of "snd (next_random rnd)"]
      generateCharacter_no_sentinel[of "fst (next_random rnd)"]
    by (simp add: split_beta)
qed

lemma replace_cols_unit:
  "unit_interval rnd \<Longrightarrow>
   length (concat (fst (replace_cols row rnd))) = length row \<and>
   unit_interval (snd (replace_cols row rnd))"
proof (induction row arbitrary: rnd)
  case Nil
  then show ?case by simp
next
  case (Cons c cs)
  have u: "unit_interval (snd (next_random rnd))" using Cons.prems by (rule unit_interval_next)
  obtain ch where ch: "generateCharacter (fst (next_random rnd)) = [ch]"
    using generateCharacter_unit unit_interval_fst[OF Cons.prems] by blast
  show ?case
    using Cons.IH[OF Cons.prems] Cons.IH[OF u] ch
    by (simp add: split_beta)
qed

section \<open>Collapse, column by column\<close>

lemma shift_cols_same_length:
  "length ts = length fs \<Longrightarrow>
   shift_cols ts fs =
     (map2 (\<lambda>t f. if t = REMOVED_CHAR_SYMBOL then f else t) ts fs,
      map2 (\<lambda>t f. if t = REMOVED_CHAR_SYMBOL then REMOVED_CHAR_SYMBOL else f) ts fs)"
  by (induction ts fs rule: list_induct2) simp_all

lemma col_shift_length [simp]: "length (col_shift r xs) = length xs"
  by (induction r arbitrary: xs) simp_all

lemma col_shift_carry:
  "r < length xs \<Longrightarrow> xs ! r = REMOVED_CHAR_SYMBOL \<Longrightarrow>
   col_shift r xs = REMOVED_CHAR_SYMBOL # take r xs @ drop (Suc r) xs"
proof (induction r arbitrary: xs)
  case 0
  then show ?case by (cases xs) simp_all
next
  case (Suc r)
  let ?S = REMOVED_CHAR_SYMBOL
  let ?ys = "xs[Suc r := xs ! r, r := ?S]"
  have len: "r < length ?ys" using Suc.prems by simp
  have at: "?ys ! r = ?S" using Suc.prems by simp
  have "col_shift (Suc r) xs = col_shift r ?ys" using Suc.prems by simp
  also have "\<dots> = ?S # take r ?ys @ drop (Suc r) ?ys" by (rule Suc.IH[OF len at])
  also have "take r ?ys = take r xs" by simp
  also have "drop (Suc r) ?ys = xs ! r # drop (Suc (Suc r)) xs"
    using Suc.prems by (simp add: drop_update_swap Cons_nth_drop_Suc[symmetric] upd_conv_take_nth_drop)
  also have "take r xs @ xs ! r # drop (Suc (Suc r)) xs = take (Suc r) xs @ drop (Suc (Suc r)) xs"
    using Suc.prems by (simp add: take_Suc_conv_app_nth)
  finally show ?case .
qed

lemma col_shift_skip:
  "(\<And>i. r < i \<Longrightarrow> i \<le> r + k \<Longrightarrow> xs ! i \<noteq> REMOVED_CHAR_SYMBOL) \<Longrightarrow>
   col_shift (r + k) xs = col_shift r xs"
proof (induction k)
  case 0
  show ?case by simp
next
  case (Suc k)
  have "xs ! Suc (r + k) \<noteq> REMOVED_CHAR_SYMBOL" using Suc.prems[of "Suc (r + k)"] by simp
  then have "col_shift (r + Suc k) xs = col_shift (r + k) xs" by simp
  also have "\<dots> = col_shift r xs" using Suc.prems by (intro Suc.IH) simp_all
  finally show ?case .
qed

lemma settle_first_gap:
  assumes "REMOVED_CHAR_SYMBOL \<notin> set b"
  shows "settle (a @ REMOVED_CHAR_SYMBOL # b) = REMOVED_CHAR_SYMBOL # a @ b"
proof -
  let ?S = REMOVED_CHAR_SYMBOL
  let ?xs = "a @ ?S # b"
  have "settle ?xs = col_shift (length a + length b) ?xs" by (simp add: settle_def)
  also have "\<dots> = col_shift (length a) ?xs"
  proof (rule col_shift_skip)
    fix i assume "length a < i" "i \<le> length a + length b"
    then have "?xs ! i = b ! (i - Suc (length a))" "i - Suc (length a) < length b"
      by (auto simp: nth_append nth_Cons')
    then show "?xs ! i \<noteq> ?S" using assms by (metis nth_mem)
  qed
  also have "\<dots> = ?S # take (length a) ?xs @ drop (Suc (length a)) ?xs"
    by (rule col_shift_carry) simp_all
  also have "\<dots> = ?S # a @ b" by simp
  finally show ?thesis .
qed

lemma settle_no_gap:
  assumes "REMOVED_CHAR_SYMBOL \<notin> set xs"
  shows "settle xs = xs"
proof -
  have "col_shift (0 + (length xs - 1)) xs = col_shift 0 xs"
  proof (rule col_shift_skip)
    fix i assume "0 < i" "i \<le> 0 + (length xs - 1)"
    then have "i < length xs" by simp
    then show "xs ! i \<noteq> REMOVED_CHAR_SYMBOL" using assms by (metis nth_mem)
  qed
  then show ?thesis by (simp add: settle_def)
qed

lemma settle_settled:
  assumes "REMOVED_CHAR_SYMBOL \<notin> set b"
  shows "settle (replicate t REMOVED_CHAR_SYMBOL @ b) = replicate t REMOVED_CHAR_SYMBOL @ b"
proof (cases t)
  case 0
  then show ?thesis using assms by (simp add: settle_no_gap)
next
  case (Suc n)
  have "replicate t REMOVED_CHAR_SYMBOL @ b = replicate n REMOVED_CHAR_SYMBOL @ REMOVED_CHAR_SYMBOL # b"
    unfolding Suc by (simp add: replicate_append_same)
  then show ?thesis using settle_first_gap[OF assms, of "replicate n REMOVED_CHAR_SYMBOL"] Suc
    by simp
qed

lemma settle_funpow:
  "REMOVED_CHAR_SYMBOL \<notin> set b \<Longrightarrow>
   length (filter (\<lambda>x. x = REMOVED_CHAR_SYMBOL) q) \<le> k \<Longrightarrow>
   (settle ^^ k) (replicate t REMOVED_CHAR_SYMBOL @ q @ b) =
     replicate (t + length (filter (\<lambda>x. x = REMOVED_CHAR_SYMBOL) q)) REMOVED_CHAR_SYMBOL
       @ filter (\<lambda>x. x \<noteq> REMOVED_CHAR_SYMBOL) q @ b"
proof (induction k arbitrary: t q b)
  case 0
  then have "filter (\<lambda>x. x = REMOVED_CHAR_SYMBOL) q = []" by simp
  then have "\<forall>x\<in>set q. x \<noteq> REMOVED_CHAR_SYMBOL" by (simp add: filter_empty_conv)
  then have "filter (\<lambda>x. x \<noteq> REMOVED_CHAR_SYMBOL) q = q" by simp
  with \<open>filter (\<lambda>x. x = REMOVED_CHAR_SYMBOL) q = []\<close> show ?case by simp
next
  case (Suc k)
  let ?S = REMOVED_CHAR_SYMBOL
  show ?case
  proof (cases "?S \<in> set q")
    case False
    then have f1: "filter (\<lambda>x. x = ?S) q = []" and f2: "filter (\<lambda>x. x \<noteq> ?S) q = q"
      by (auto simp: filter_empty_conv filter_id_conv)
    have nb: "?S \<notin> set (q @ b)" using False Suc.prems(1) by simp
    have "(settle ^^ Suc k) (replicate t ?S @ q @ b) = (settle ^^ k) (settle (replicate t ?S @ (q @ b)))"
      by (simp add: funpow_swap1)
    also have "\<dots> = (settle ^^ k) (replicate t ?S @ q @ b)"
      by (simp only: settle_settled[OF nb] append_assoc)
    also have "\<dots> = replicate (t + length (filter (\<lambda>x. x = ?S) q)) ?S @ filter (\<lambda>x. x \<noteq> ?S) q @ b"
      by (rule Suc.IH[OF Suc.prems(1)]) (simp add: f1)
    finally show ?thesis .
  next
    case True
    then obtain q1 q2 where q: "q = q1 @ ?S # q2" and q2: "?S \<notin> set q2"
      by (meson split_list_last)
    have nb: "?S \<notin> set (q2 @ b)" using q2 Suc.prems(1) by simp
    have cnt: "length (filter (\<lambda>x. x = ?S) q1) \<le> k" using Suc.prems(2) q by simp
    have fq2: "filter (\<lambda>x. x \<noteq> ?S) q2 = q2" "filter (\<lambda>x. x = ?S) q2 = []"
      using q2 by (auto simp: filter_empty_conv filter_id_conv)
    have "(settle ^^ Suc k) (replicate t ?S @ q @ b) =
          (settle ^^ k) (settle ((replicate t ?S @ q1) @ ?S # (q2 @ b)))"
      by (simp add: funpow_swap1 q)
    also have "settle ((replicate t ?S @ q1) @ ?S # (q2 @ b)) = ?S # (replicate t ?S @ q1) @ (q2 @ b)"
      by (rule settle_first_gap[OF nb])
    also have "\<dots> = replicate (Suc t) ?S @ q1 @ (q2 @ b)" by simp
    also have "(settle ^^ k) \<dots> =
        replicate (Suc t + length (filter (\<lambda>x. x = ?S) q1)) ?S @ filter (\<lambda>x. x \<noteq> ?S) q1 @ (q2 @ b)"
      by (rule Suc.IH[OF nb cnt])
    also have "\<dots> = replicate (t + length (filter (\<lambda>x. x = ?S) q)) ?S @ filter (\<lambda>x. x \<noteq> ?S) q @ b"
      by (simp add: q fq2)
    finally show ?thesis .
  qed
qed

lemma settle_all:
  assumes "length xs \<le> k"
  shows "(settle ^^ k) xs =
     replicate (length (filter (\<lambda>x. x = REMOVED_CHAR_SYMBOL) xs)) REMOVED_CHAR_SYMBOL
       @ filter (\<lambda>x. x \<noteq> REMOVED_CHAR_SYMBOL) xs"
proof -
  have "length (filter (\<lambda>x. x = REMOVED_CHAR_SYMBOL) xs) \<le> k"
    using assms length_filter_le[of "\<lambda>x. x = REMOVED_CHAR_SYMBOL" xs] by linarith
  then show ?thesis
    using settle_funpow[of "[]" xs k 0] by simp
qed


lemma shift_cols_lengths:
  "length ts = length fs \<Longrightarrow>
   length (fst (shift_cols ts fs)) = length fs \<and> length (snd (shift_cols ts fs)) = length fs"
  by (simp add: shift_cols_same_length)

lemma shift_cols_nth:
  assumes "length ts = length fs" "c < length fs"
  shows "fst (shift_cols ts fs) ! c = (if ts ! c = REMOVED_CHAR_SYMBOL then fs ! c else ts ! c)"
    and "snd (shift_cols ts fs) ! c =
           (if ts ! c = REMOVED_CHAR_SYMBOL then REMOVED_CHAR_SYMBOL else fs ! c)"
  using assms by (simp_all add: shift_cols_same_length)

lemma column_update: "column c (g[i := row]) = (column c g)[i := row ! c]"
  by (simp add: column_def map_update)

lemma column_nth: "i < length g \<Longrightarrow> column c g ! i = g ! i ! c"
  by (simp add: column_def)

lemma length_column [simp]: "length (column c g) = length g"
  by (simp add: column_def)

lemma shift_rows_column:
  assumes "\<forall>row\<in>set g. length row = W" "r < length g" "c < W"
  shows "(\<forall>row\<in>set (shift_rows r g). length row = W) \<and>
         length (shift_rows r g) = length g \<and>
         column c (shift_rows r g) = col_shift r (column c g)"
  using assms
proof (induction r arbitrary: g)
  case 0
  then show ?case by simp
next
  case (Suc r)
  let ?S = REMOVED_CHAR_SYMBOL
  let ?t = "g ! Suc r" and ?f = "g ! r"
  let ?to = "fst (shift_cols ?t ?f)" and ?from = "snd (shift_cols ?t ?f)"
  let ?g1 = "g[Suc r := ?to, r := ?from]"
  have lt: "length ?t = W" and lf: "length ?f = W" using Suc.prems by simp_all
  have leq: "length ?t = length ?f" using lt lf by simp
  have lens: "length ?to = W" "length ?from = W"
    using shift_cols_lengths[OF leq] lf by simp_all
  have rect1: "\<forall>row\<in>set ?g1. length row = W"
  proof
    fix row assume "row \<in> set ?g1"
    then have "row = ?from \<or> row \<in> set (g[Suc r := ?to])"
      using set_update_subset_insert[of "g[Suc r := ?to]" r ?from] by auto
    then have "row = ?from \<or> row = ?to \<or> row \<in> set g"
      using set_update_subset_insert[of g "Suc r" ?to] by auto
    then show "length row = W" using lens Suc.prems(1) by auto
  qed
  have r1: "r < length ?g1" using Suc.prems(2) by simp
  have step: "shift_rows (Suc r) g = shift_rows r ?g1" by (simp add: split_beta)
  have cf: "c < length ?f" using lf Suc.prems(3) by simp
  have col1: "column c ?g1 =
      (if column c g ! Suc r = ?S then (column c g)[Suc r := column c g ! r, r := ?S]
       else column c g)"
  proof -
    have "column c ?g1 = (column c g)[Suc r := ?to ! c, r := ?from ! c]"
      by (simp add: column_update)
    also have "?to ! c = (if ?t ! c = ?S then ?f ! c else ?t ! c)"
      by (rule shift_cols_nth(1)[OF leq cf])
    also have "?from ! c = (if ?t ! c = ?S then ?S else ?f ! c)"
      by (rule shift_cols_nth(2)[OF leq cf])
    also have "?t ! c = column c g ! Suc r" using Suc.prems(2) by (simp add: column_nth)
    also have "?f ! c = column c g ! r" using Suc.prems(2) by (simp add: column_nth)
    finally show ?thesis by (simp add: list_update_swap)
  qed
  from Suc.IH[OF rect1 r1 Suc.prems(3)] show ?case
    unfolding step col1 by simp
qed

lemma sweeps_column:
  assumes "\<forall>row\<in>set g. length row = W" "length g = NUM_ROWS" "c < W"
  shows "(\<forall>row\<in>set (sweeps k g). length row = W) \<and>
         length (sweeps k g) = NUM_ROWS \<and>
         column c (sweeps k g) = (settle ^^ k) (column c g)"
  using assms
proof (induction k arbitrary: g)
  case 0
  then show ?case by simp
next
  case (Suc k)
  let ?g1 = "shift_rows (NUM_ROWS - 1) g"
  have r: "NUM_ROWS - 1 < length g" using Suc.prems(2) by (simp add: NUM_ROWS_def)
  note one = shift_rows_column[OF Suc.prems(1) r Suc.prems(3)]
  have rect1: "\<forall>row\<in>set ?g1. length row = W" using one by blast
  have len1: "length ?g1 = NUM_ROWS" using one Suc.prems(2) by simp
  have col1: "column c ?g1 = settle (column c g)"
    using one Suc.prems(2) by (simp add: settle_def)
  from Suc.IH[OF rect1 len1 Suc.prems(3)] col1 show ?case
    by (simp add: funpow_swap1)
qed

lemma arrayShift_columns:
  assumes "wf_grid g"
  shows "\<exists>g'. arrayShift g = Inr g' \<and> wf_grid g' \<and>
           (\<forall>c<CHAR_PER_ROW. column c g' =
              replicate (length (filter (\<lambda>x. x = REMOVED_CHAR_SYMBOL) (column c g)))
                REMOVED_CHAR_SYMBOL
              @ filter (\<lambda>x. x \<noteq> REMOVED_CHAR_SYMBOL) (column c g))"
proof -
  have len: "length g = NUM_ROWS" and rect: "\<forall>row\<in>set g. length row = CHAR_PER_ROW"
    using assms by (simp_all add: wf_grid_def list_all_iff)
  have pos: "0 < CHAR_PER_ROW" by (simp add: CHAR_PER_ROW_def)
  note zero = sweeps_column[OF rect len pos, of NUM_ROWS]
  have wf': "wf_grid (sweeps NUM_ROWS g)"
    using zero by (simp add: wf_grid_def list_all_iff)
  have cols: "\<forall>c<CHAR_PER_ROW. column c (sweeps NUM_ROWS g) =
              replicate (length (filter (\<lambda>x. x = REMOVED_CHAR_SYMBOL) (column c g)))
                REMOVED_CHAR_SYMBOL
              @ filter (\<lambda>x. x \<noteq> REMOVED_CHAR_SYMBOL) (column c g)"
  proof (intro allI impI)
    fix c assume c: "c < CHAR_PER_ROW"
    have "column c (sweeps NUM_ROWS g) = (settle ^^ NUM_ROWS) (column c g)"
      using sweeps_column[OF rect len c, of NUM_ROWS] by simp
    also have "\<dots> = replicate (length (filter (\<lambda>x. x = REMOVED_CHAR_SYMBOL) (column c g)))
                REMOVED_CHAR_SYMBOL
              @ filter (\<lambda>x. x \<noteq> REMOVED_CHAR_SYMBOL) (column c g)"
      by (rule settle_all) (simp add: len)
    finally show "column c (sweeps NUM_ROWS g) =
              replicate (length (filter (\<lambda>x. x = REMOVED_CHAR_SYMBOL) (column c g)))
                REMOVED_CHAR_SYMBOL
              @ filter (\<lambda>x. x \<noteq> REMOVED_CHAR_SYMBOL) (column c g)" .
  qed
  have "arrayShift g = Inr (sweeps NUM_ROWS g)" using len by (simp add: arrayShift_def)
  with wf' cols show ?thesis by blast
qed

section \<open>Removal and refill\<close>

lemma replace_first_char_length:
  "length (replace_first [c] [d] s) = length s"
  by (induction s) simp_all

lemma removeCharacters_wf:
  "wf_grid g \<Longrightarrow> in_grid ms \<Longrightarrow> \<exists>g'. removeCharacters ms g = Inr g' \<and> wf_grid g'"
proof (induction ms arbitrary: g)
  case Nil
  then show ?case by simp
next
  case (Cons loc ms)
  obtain row col where loc: "loc = (row, col)" by (cases loc)
  have rc: "row < NUM_ROWS" "col < CHAR_PER_ROW" and rest: "in_grid ms"
    using Cons.prems(2) loc by (simp_all add: in_grid_def)
  have row: "row < length g" using rc(1) Cons.prems(1) by (simp add: wf_grid_def)
  have col: "col < length (g ! row)"
    using rc(2) row Cons.prems(1) by (simp add: wf_grid_def list_all_length)
  let ?g1 = "g[row := replace_first [g ! row ! col] [REMOVED_CHAR_SYMBOL] (g ! row)]"
  have "wf_grid ?g1"
    using Cons.prems(1) row
    by (auto simp: wf_grid_def list_all_length nth_list_update replace_first_char_length)
  then have "\<exists>g'. removeCharacters ms ?g1 = Inr g' \<and> wf_grid g'" using rest by (rule Cons.IH)
  then show ?case using row col loc by simp
qed

lemma replace_rows_frame:
  "row + n \<le> length g \<Longrightarrow>
   length (fst (replace_rows row n g rnd)) = length g \<and>
   (\<forall>i<length g.
      (i < row \<or> row + n \<le> i \<longrightarrow> fst (replace_rows row n g rnd) ! i = g ! i) \<and>
      (row \<le> i \<and> i < row + n \<longrightarrow> REMOVED_CHAR_SYMBOL \<notin> set (fst (replace_rows row n g rnd) ! i)))"
proof (induction n arbitrary: row g rnd)
  case 0
  show ?case by auto
next
  case (Suc n)
  let ?new = "concat (fst (replace_cols (g ! row) rnd))"
  let ?g1 = "g[row := ?new]" and ?rnd1 = "snd (replace_cols (g ! row) rnd)"
  have step: "replace_rows row (Suc n) g rnd = replace_rows (Suc row) n ?g1 ?rnd1"
    by (simp add: split_beta)
  have b: "Suc row + n \<le> length ?g1" using Suc.prems by simp
  note ih = Suc.IH[OF b, of ?rnd1]
  have new: "REMOVED_CHAR_SYMBOL \<notin> set ?new" by (rule replace_cols_no_sentinel)
  show ?case
    unfolding step
  proof (intro conjI allI impI)
    show "length (fst (replace_rows (Suc row) n ?g1 ?rnd1)) = length g" using ih by simp
  next
    fix i assume i: "i < length g" and "i < row \<or> row + Suc n \<le> i"
    then have "i < Suc row \<or> Suc row + n \<le> i" by auto
    then have "fst (replace_rows (Suc row) n ?g1 ?rnd1) ! i = ?g1 ! i" using ih i by auto
    also have "\<dots> = g ! i" using \<open>i < row \<or> row + Suc n \<le> i\<close> by auto
    finally show "fst (replace_rows (Suc row) n ?g1 ?rnd1) ! i = g ! i" .
  next
    fix i assume i: "i < length g" and r: "row \<le> i \<and> i < row + Suc n"
    show "REMOVED_CHAR_SYMBOL \<notin> set (fst (replace_rows (Suc row) n ?g1 ?rnd1) ! i)"
    proof (cases "i = row")
      case True
      then have "fst (replace_rows (Suc row) n ?g1 ?rnd1) ! i = ?g1 ! i" using ih i by auto
      then show ?thesis using True new i by simp
    next
      case False
      then have "Suc row \<le> i \<and> i < Suc row + n" using r by auto
      then show ?thesis using ih i by auto
    qed
  qed
qed

lemma replace_rows_lengths:
  "unit_interval rnd \<Longrightarrow> row + n \<le> length g \<Longrightarrow>
   unit_interval (snd (replace_rows row n g rnd)) \<and>
   (\<forall>i<length g. length (fst (replace_rows row n g rnd) ! i) = length (g ! i))"
proof (induction n arbitrary: row g rnd)
  case 0
  then show ?case by simp
next
  case (Suc n)
  let ?new = "concat (fst (replace_cols (g ! row) rnd))"
  let ?g1 = "g[row := ?new]" and ?rnd1 = "snd (replace_cols (g ! row) rnd)"
  have step: "replace_rows row (Suc n) g rnd = replace_rows (Suc row) n ?g1 ?rnd1"
    by (simp add: split_beta)
  note cols = replace_cols_unit[OF Suc.prems(1), of "g ! row"]
  have u: "unit_interval ?rnd1" using cols by simp
  have b: "Suc row + n \<le> length ?g1" using Suc.prems(2) by simp
  note ih = Suc.IH[OF u b]
  have "\<forall>i<length g. length (?g1 ! i) = length (g ! i)"
  proof (intro allI impI)
    fix i assume "i < length g"
    then show "length (?g1 ! i) = length (g ! i)" using cols by (cases "i = row") simp_all
  qed
  then show ?case unfolding step using ih by simp
qed

lemma replaceCharacters_wf:
  assumes "wf_grid g" "unit_interval rnd"
  shows "\<exists>g' rnd'. replaceCharacters g rnd = Inr (g', rnd') \<and> wf_grid g' \<and> no_sentinel g'"
proof -
  have len: "length g = NUM_ROWS" using assms(1) by (simp add: wf_grid_def)
  then have b: "0 + NUM_ROWS \<le> length g" by simp
  let ?res = "replace_rows 0 NUM_ROWS g rnd"
  note fr = replace_rows_frame[OF b, of rnd]
  note ln = replace_rows_lengths[OF assms(2) b]
  have "wf_grid (fst ?res)"
    using fr ln assms(1) by (simp add: wf_grid_def list_all_length)
  moreover have "no_sentinel (fst ?res)"
    using fr len by (simp add: no_sentinel_def list_all_length)
  moreover have "replaceCharacters g rnd = Inr (fst ?res, snd ?res)"
    using len by (simp add: replaceCharacters_def)
  ultimately show ?thesis by blast
qed

lemma pipeline_ok:
  assumes "wf_grid g" "in_grid ms" "unit_interval rnd"
  shows "\<exists>g' rnd'. remove_collapse_refill ms g rnd = Inr (g', rnd') \<and>
           wf_grid g' \<and> no_sentinel g'"
proof -
  obtain g1 where g1: "removeCharacters ms g = Inr g1" "wf_grid g1"
    using removeCharacters_wf[OF assms(1,2)] by blast
  obtain g2 where g2: "arrayShift g1 = Inr g2" "wf_grid g2"
    using arrayShift_columns[OF g1(2)] by blast
  obtain g3 rnd3 where g3: "replaceCharacters g2 rnd = Inr (g3, rnd3)" "wf_grid g3" "no_sentinel g3"
    using replaceCharacters_wf[OF g2(2) assms(3)] by blast
  show ?thesis using g1 g2 g3 by (simp add: remove_collapse_refill_def)
qed

lemma fill_rows_frame:
  "length (fst (fill_rows row n g rnd)) \<ge> length g \<and>
   (\<forall>i<length (fst (fill_rows row n g rnd)).
      (i < length g \<and> fst (fill_rows row n g rnd) ! i = g ! i) \<or>
      REMOVED_CHAR_SYMBOL \<notin> set (fst (fill_rows row n g rnd) ! i))"
proof (induction n arbitrary: row g rnd)
  case 0
  show ?case by simp
next
  case (Suc n)
  show ?case
  proof (cases "row < length g \<and> g ! row \<noteq> []")
    case True
    then show ?thesis using Suc.IH[of g "Suc row" rnd] by simp
  next
    case False
    let ?str = "fst (createCharacterString CHAR_PER_ROW None None rnd)"
    let ?rnd1 = "snd (createCharacterString CHAR_PER_ROW None None rnd)"
    let ?g1 = "if row < length g then g[row := ?str] else g @ [?str]"
    have step: "fill_rows row (Suc n) g rnd = fill_rows (Suc row) n ?g1 ?rnd1"
      using False by (auto simp: split_beta)
    have str: "REMOVED_CHAR_SYMBOL \<notin> set ?str" by (rule createCharacterString_no_sentinel)
    have g1: "\<forall>i<length ?g1. (i < length g \<and> ?g1 ! i = g ! i) \<or> REMOVED_CHAR_SYMBOL \<notin> set (?g1 ! i)"
      using str by (auto simp: nth_list_update nth_append)
    have l1: "length g \<le> length ?g1" by simp
    note ih = Suc.IH[of ?g1 "Suc row" ?rnd1]
    show ?thesis
      unfolding step
    proof (intro conjI allI impI)
      show "length g \<le> length (fst (fill_rows (Suc row) n ?g1 ?rnd1))"
        using ih l1 by linarith
    next
      fix i assume i: "i < length (fst (fill_rows (Suc row) n ?g1 ?rnd1))"
      let ?r = "fst (fill_rows (Suc row) n ?g1 ?rnd1)"
      from ih i have "(i < length ?g1 \<and> ?r ! i = ?g1 ! i) \<or> REMOVED_CHAR_SYMBOL \<notin> set (?r ! i)"
        by blast
      then show "(i < length g \<and> ?r ! i = g ! i) \<or> REMOVED_CHAR_SYMBOL \<notin> set (?r ! i)"
        using g1 by metis
    qed
  qed
qed

section \<open>The match engine\<close>

lemma push_locations_eq:
  "push_locations row c k acc = acc @ map (Pair row) [c..<c + k]"
proof (induction k arbitrary: c acc)
  case 0
  show ?case by simp
next
  case (Suc k)
  have "[c..<c + Suc k] = c # [Suc c..<Suc c + k]" by (simp add: upt_rec)
  then show ?case using Suc.IH[of "Suc c" "acc @ [(row, c)]"] by simp
qed

lemma search_Some:
  "search m s i = Some (j, e) \<Longrightarrow> i \<le> j \<and> j \<le> length s \<and> m s j = Some e"
proof (induction m s i rule: search.induct)
  case (1 m s i)
  show ?case
  proof (cases "m s i")
    case None
    with "1.prems" have "\<not> length s < i" "search m s (Suc i) = Some (j, e)"
      by (auto simp: search.simps[of m s i] split: if_splits)
    with "1.IH"[OF this(1) None] show ?thesis by simp
  next
    case (Some e')
    with "1.prems" show ?thesis
      by (auto simp: search.simps[of m s i] split: if_splits)
  qed
qed

lemma search_hit: "m s i = Some e \<Longrightarrow> i \<le> length s \<Longrightarrow> search m s i = Some (i, e)"
  by (simp add: search.simps[of m s i])

lemma search_beyond: "length s < i \<Longrightarrow> search m s i = None"
  by (simp add: search.simps[of m s i])

lemma search_None_scan: "search m s pos = None \<Longrightarrow> scan m s pos = []"
  by (simp add: scan.simps[of m s pos])

lemma locations_of_Cons:
  "locations_of row ((i, e) # spans) = map (Pair row) [i..<e] @ locations_of row spans"
  by (simp add: locations_of_def)

lemma locations_of_Nil: "locations_of row [] = []"
  by (simp add: locations_of_def)

lemma regexp_contractD:
  "regexp_contract m \<Longrightarrow> p \<le> length s \<Longrightarrow> m s p = Some e \<Longrightarrow> p \<le> e \<and> e \<le> length s"
  unfolding regexp_contract_def by blast

lemmas match_loop_induct = match_loop.raw_induct[rotated 1, consumes 1, case_names step]

lemma match_loop_partial:
  assumes "match_loop m s row li acc = Some y" and "regexp_contract m"
  shows "y = (acc @ locations_of row (scan m s li), 0)"
  using assms
proof (induction m s row li acc y rule: match_loop_induct)
  case (step lp m s row li acc y)
  show ?case
  proof (cases "search m s li")
    case None
    then have "y = (acc, 0)" using step.hyps by (simp add: exec_def)
    then show ?thesis using None by (simp add: search_None_scan locations_of_Nil)
  next
    case (Some ie)
    obtain i e where ie: "ie = (i, e)" by (cases ie)
    note sr = search_Some[OF Some[unfolded ie]]
    have ce: "i \<le> e" "e \<le> length s"
      using regexp_contractD[OF step.prems, of i s e] sr by simp_all
    have len: "length (take (e - i) (drop i s)) = e - i" using ce by simp
    have call: "lp m s row e (push_locations row i (e - i) acc) = Some y"
      using step.hyps Some ie len by (simp add: exec_def)
    have push: "push_locations row i (e - i) acc = acc @ map (Pair row) [i..<e]"
      using ce by (simp add: push_locations_eq)
    from step.IH[OF call step.prems]
    have y: "y = (acc @ map (Pair row) [i..<e] @ locations_of row (scan m s e), 0)"
      by (simp add: push)
    show ?thesis
    proof (cases "li < e")
      case True
      then have "scan m s li = (i, e) # scan m s e"
        using Some ie by (simp add: scan.simps[of m s li])
      then show ?thesis using y by (simp add: locations_of_Cons)
    next
      case False
      then have eq: "e = li" "i = li" using sr ce by simp_all
      then show ?thesis using y by simp
    qed
  qed
qed

lemma match_loop_total:
  assumes "\<And>p e. m s p = Some e \<Longrightarrow> p < e"
  shows "\<exists>y. match_loop m s row li acc = Some y"
proof (induction "Suc (length s) - li" arbitrary: li acc rule: less_induct)
  case less
  show ?case
  proof (cases "search m s li")
    case None
    then show ?thesis by (simp add: match_loop.simps[of m s row li acc] exec_def)
  next
    case (Some ie)
    obtain i e where ie: "ie = (i, e)" by (cases ie)
    note sr = search_Some[OF Some[unfolded ie]]
    have "i < e" using assms sr by simp
    then have "Suc (length s) - e < Suc (length s) - li" using sr by linarith
    from less[OF this]
    obtain y where "match_loop m s row e (push_locations row i (length (take (e - i) (drop i s))) acc) = Some y"
      by blast
    then show ?thesis using Some ie
      by (simp add: match_loop.simps[of m s row li acc] exec_def)
  qed
qed

lemma match_loop_stuck:
  assumes "match_loop m s row li acc = Some y" and "m s li = Some li" and "li \<le> length s"
  shows False
  using assms
proof (induction m s row li acc y rule: match_loop_induct)
  case (step lp m s row li acc y)
  have "search m s li = Some (li, li)" using step.prems by (rule search_hit)
  then have "lp m s row li acc = Some y"
    using step.hyps by (simp add: exec_def)
  from step.IH[OF this step.prems] show ?case .
qed

lemma match_loop_diverges:
  assumes "search m s li = Some (i, i)"
  shows "match_loop m s row li acc = None"
proof -
  note sr = search_Some[OF assms]
  have "match_loop m s row i acc = None"
  proof (cases "match_loop m s row i acc")
    case None
    then show ?thesis .
  next
    case (Some y)
    from match_loop_stuck[OF this] sr show ?thesis by simp
  qed
  then show ?thesis using assms
    by (simp add: match_loop.simps[of m s row li acc] exec_def)
qed

lemma rows_loop_partial:
  "regexp_contract m \<Longrightarrow> rows_loop m ss row 0 acc = Some res \<Longrightarrow>
   res = acc @ concat (map (\<lambda>(r, s). locations_of r (scan m s 0)) (enumerate row ss))"
proof (induction ss arbitrary: row acc)
  case Nil
  then show ?case by simp
next
  case (Cons s ss)
  from Cons.prems(2) obtain acc' li' where
    ml: "match_loop m s row 0 acc = Some (acc', li')" and
    rl: "rows_loop m ss (Suc row) li' acc' = Some res"
    by (auto split: option.splits)
  from match_loop_partial[OF ml Cons.prems(1)]
  have a: "acc' = acc @ locations_of row (scan m s 0)" and l: "li' = 0" by simp_all
  from Cons.IH[OF Cons.prems(1) rl[unfolded l]] show ?case by (simp add: a)
qed

lemma rows_loop_total:
  "(\<And>s p e. s \<in> set ss \<Longrightarrow> m s p = Some e \<Longrightarrow> p < e) \<Longrightarrow>
   \<exists>res. rows_loop m ss row li acc = Some res"
proof (induction ss arbitrary: row li acc)
  case Nil
  show ?case by simp
next
  case (Cons s ss)
  have "\<And>p e. m s p = Some e \<Longrightarrow> p < e"
    using Cons.prems[of s] by simp
  then have "\<exists>y. match_loop m s row li acc = Some y"
    by (rule match_loop_total)
  then obtain acc' li' where ml: "match_loop m s row li acc = Some (acc', li')" by auto
  have "\<And>t p e. t \<in> set ss \<Longrightarrow> m t p = Some e \<Longrightarrow> p < e"
  proof -
    fix t p e assume "t \<in> set ss" "m t p = Some e"
    then show "p < e" using Cons.prems[of t p e] by simp
  qed
  then have "\<exists>res. rows_loop m ss (Suc row) li' acc' = Some res"
    by (rule Cons.IH)
  then show ?case using ml by simp
qed

lemma scan_spans:
  "regexp_contract m \<Longrightarrow> (i, e) \<in> set (scan m s pos) \<Longrightarrow> pos \<le> i \<and> i \<le> e \<and> e \<le> length s"
proof (induction m s pos rule: scan.induct)
  case (1 m s pos)
  show ?case
  proof (cases "search m s pos")
    case None
    then show ?thesis using "1.prems"(2) by (simp add: search_None_scan)
  next
    case (Some je)
    obtain j f where je: "je = (j, f)" by (cases je)
    note sr = search_Some[OF Some[unfolded je]]
    have cf: "j \<le> f" "f \<le> length s"
      using regexp_contractD[OF "1.prems"(1), of j s f] sr by simp_all
    show ?thesis
    proof (cases "pos < f")
      case True
      then have sc: "scan m s pos = (j, f) # scan m s f"
        using Some je by (simp add: scan.simps[of m s pos])
      from "1.prems"(2)[unfolded sc] have "(i, e) = (j, f) \<or> (i, e) \<in> set (scan m s f)" by simp
      then show ?thesis
      proof
        assume "(i, e) = (j, f)"
        then show ?thesis using sr cf by simp
      next
        assume "(i, e) \<in> set (scan m s f)"
        from "1.IH"[OF Some je[symmetric] True "1.prems"(1) this] show ?thesis
          using True by simp
      qed
    next
      case False
      then have "scan m s pos = []" using Some je by (simp add: scan.simps[of m s pos])
      then show ?thesis using "1.prems"(2) by simp
    qed
  qed
qed

lemma locations_of_cols:
  "locations_of row spans = map (Pair row) (concat (map (\<lambda>(i, e). [i..<e]) spans))"
  by (induction spans) (auto simp: locations_of_def)

lemma in_locations_of:
  "(r, c) \<in> set (locations_of row spans) \<longleftrightarrow>
     r = row \<and> (\<exists>(i, e)\<in>set spans. i \<le> c \<and> c < e)"
proof (induction spans)
  case Nil
  show ?case by (simp add: locations_of_Nil)
next
  case (Cons ie spans)
  obtain i e where ie: "ie = (i, e)" by (cases ie)
  have "(r, c) \<in> set (map (Pair row) [i..<e]) \<longleftrightarrow> r = row \<and> i \<le> c \<and> c < e"
    by auto
  then show ?case unfolding ie locations_of_Cons using Cons.IH by auto
qed

lemma findMatches_in_bounds:
  assumes "regexp_contract m" "(r, c) \<in> set (findMatches m g)"
  shows "r < length g \<and> c < length (g ! r)"
proof -
  from assms(2) obtain row s where rs: "(row, s) \<in> set (enumerate 0 g)"
    and loc: "(r, c) \<in> set (locations_of row (scan m s 0))"
    by (auto simp: findMatches_def)
  from rs have row: "row < length g" "g ! row = s" by (auto simp: in_set_enumerate_eq)
  from loc obtain i e where "r = row" "(i, e) \<in> set (scan m s 0)" "i \<le> c" "c < e"
    by (auto simp: in_locations_of)
  with scan_spans[OF assms(1), of i e s 0] row show ?thesis by simp
qed

lemma scan_sorted:
  "regexp_contract m \<Longrightarrow>
   sorted_wrt (<) (concat (map (\<lambda>(i, e). [i..<e]) (scan m s pos))) \<and>
   (\<forall>c\<in>set (concat (map (\<lambda>(i, e). [i..<e]) (scan m s pos))). pos \<le> c)"
proof (induction m s pos rule: scan.induct)
  case (1 m s pos)
  show ?case
  proof (cases "search m s pos")
    case None
    then show ?thesis by (simp add: search_None_scan)
  next
    case (Some je)
    obtain j f where je: "je = (j, f)" by (cases je)
    note sr = search_Some[OF Some[unfolded je]]
    show ?thesis
    proof (cases "pos < f")
      case True
      then have sc: "scan m s pos = (j, f) # scan m s f"
        using Some je by (simp add: scan.simps[of m s pos])
      note ih = "1.IH"[OF Some je[symmetric] True "1.prems"]
      let ?rest = "concat (map (\<lambda>(i, e). [i..<e]) (scan m s f))"
      have restlow: "\<forall>c\<in>set ?rest. f \<le> c" and restsorted: "sorted_wrt (<) ?rest"
        using ih by blast+
      have cross: "\<forall>x\<in>set [j..<f]. \<forall>y\<in>set ?rest. x < y"
      proof (intro ballI)
        fix x y assume "x \<in> set [j..<f]" "y \<in> set ?rest"
        then have "x < f" and "f \<le> y" using restlow by (simp, blast)
        then show "x < y" by simp
      qed
      have low: "\<forall>c\<in>set ([j..<f] @ ?rest). pos \<le> c"
      proof
        fix c assume "c \<in> set ([j..<f] @ ?rest)"
        then have "c \<in> set [j..<f] \<or> c \<in> set ?rest" by (simp only: set_append Un_iff)
        then have "j \<le> c \<or> f \<le> c"
        proof
          assume "c \<in> set [j..<f]"
          then show ?thesis by simp
        next
          assume "c \<in> set ?rest"
          then show ?thesis using restlow by blast
        qed
        then show "pos \<le> c" using sr True by linarith
      qed
      have eq: "concat (map (\<lambda>(i, e). [i..<e]) (scan m s pos)) = [j..<f] @ ?rest"
        unfolding sc by simp
      have "sorted_wrt (<) ([j..<f] @ ?rest)"
        using restsorted cross by (simp add: sorted_wrt_append)
      then show ?thesis unfolding eq using low by blast
    next
      case False
      then have "scan m s pos = []" using Some je by (simp add: scan.simps[of m s pos])
      then show ?thesis by simp
    qed
  qed
qed

lemma locations_of_sorted:
  assumes "regexp_contract m"
  shows "sorted_wrt loc_less (locations_of row (scan m s 0))"
proof -
  have "sorted_wrt (<) (concat (map (\<lambda>(i, e). [i..<e]) (scan m s 0)))"
    using scan_sorted[OF assms] by blast
  then show ?thesis
    by (simp add: locations_of_cols sorted_wrt_map loc_less_def)
qed

lemma rows_sorted:
  assumes "regexp_contract m"
  shows "sorted_wrt loc_less
           (concat (map (\<lambda>(r, s). locations_of r (scan m s 0)) (enumerate k ss))) \<and>
         (\<forall>p\<in>set (concat (map (\<lambda>(r, s). locations_of r (scan m s 0)) (enumerate k ss))).
            k \<le> fst p)"
proof (induction ss arbitrary: k)
  case Nil
  show ?case by simp
next
  case (Cons s ss)
  let ?rest = "concat (map (\<lambda>(r, s). locations_of r (scan m s 0)) (enumerate (Suc k) ss))"
  have here: "\<forall>p\<in>set (locations_of k (scan m s 0)). fst p = k"
    by (auto simp: locations_of_def)
  have cross: "\<forall>x\<in>set (locations_of k (scan m s 0)). \<forall>y\<in>set ?rest. loc_less x y"
  proof (intro ballI)
    fix x y assume "x \<in> set (locations_of k (scan m s 0))" "y \<in> set ?rest"
    then have "fst x = k" "Suc k \<le> fst y" using here Cons.IH[of "Suc k"] by blast+
    then show "loc_less x y" by (simp add: loc_less_def)
  qed
  have low: "\<forall>p\<in>set ?rest. k \<le> fst p"
  proof
    fix p assume "p \<in> set ?rest"
    then have "Suc k \<le> fst p" using Cons.IH[of "Suc k"] by blast
    then show "k \<le> fst p" by simp
  qed
  have eq: "concat (map (\<lambda>(r, s). locations_of r (scan m s 0)) (enumerate k (s # ss))) =
      locations_of k (scan m s 0) @ ?rest"
    by simp
  have restsorted: "sorted_wrt loc_less ?rest" using Cons.IH[of "Suc k"] by blast
  have "sorted_wrt loc_less (locations_of k (scan m s 0) @ ?rest)"
    using restsorted locations_of_sorted[OF assms, of k s] cross
    by (simp only: sorted_wrt_append)
  moreover have "\<forall>p\<in>set (locations_of k (scan m s 0) @ ?rest). k \<le> fst p"
  proof
    fix p assume "p \<in> set (locations_of k (scan m s 0) @ ?rest)"
    then have "p \<in> set (locations_of k (scan m s 0)) \<or> p \<in> set ?rest"
      by (simp only: set_append Un_iff)
    then show "k \<le> fst p"
    proof
      assume "p \<in> set (locations_of k (scan m s 0))"
      then show ?thesis using here by simp
    next
      assume "p \<in> set ?rest"
      then show ?thesis using low by blast
    qed
  qed
  ultimately show ?case unfolding eq by blast
qed

lemma findMatches_sorted:
  "regexp_contract m \<Longrightarrow> sorted_wrt loc_less (findMatches m g)"
  using rows_sorted[of m 0 g] by (simp add: findMatches_def)

lemma literal_contract: "regexp_contract (literal pat)"
proof -
  have "p + length pat \<le> length s"
    if "take (length pat) (drop p s) = pat" "p \<le> length s" for p and s :: string
  proof -
    have "length (take (length pat) (drop p s)) = length pat" using that(1) by simp
    then show ?thesis using that(2) by (simp add: min_def split: if_splits)
  qed
  then show ?thesis unfolding regexp_contract_def literal_def
    by (metis add_leD1 le_add1 option.distinct(1) option.inject)
qed

lemma literal_positive: "pat \<noteq> [] \<Longrightarrow> literal pat s p = Some e \<Longrightarrow> p < e"
  by (auto simp: literal_def split: if_splits)

lemma star_contract: "regexp_contract (star c)"
proof -
  have "p + length (takeWhile (\<lambda>x. x = c) (drop p s)) \<le> length s"
    if "p \<le> length s" for p and s :: string
  proof -
    have "length (takeWhile (\<lambda>x. x = c) (drop p s)) \<le> length (drop p s)"
      by (rule length_takeWhile_le)
    then show ?thesis using that by simp
  qed
  then show ?thesis unfolding regexp_contract_def star_def by auto
qed

section \<open>Example inputs\<close>

lemma wf_example_grid: "wf_grid example_grid"
  by (simp add: wf_grid_def example_grid_def NUM_ROWS_def CHAR_PER_ROW_def)

lemma wf_full_grid: "wf_grid full_grid"
  by (simp add: wf_grid_def full_grid_def NUM_ROWS_def CHAR_PER_ROW_def)

lemma unit_interval_half: "unit_interval (\<lambda>n. 1 / 2)"
  by (simp add: unit_interval_def)

lemma length_example_grid: "length example_grid = NUM_ROWS"
  by (simp add: example_grid_def NUM_ROWS_def)

lemma getMatches_compiled:
  "RegExp userRegexString = Some m \<Longrightarrow>
   getMatches RegExp userRegexString g = map_option Inr (rows_loop m g 0 0 [])"
  by (simp add: getMatches_def)

lemma getMatches_partial:
  assumes "RegExp userRegexString = Some m" "regexp_contract m"
    and "getMatches RegExp userRegexString g = Some (Inr locs)"
  shows "locs = findMatches m g"
proof -
  from assms(3) have "rows_loop m g 0 0 [] = Some locs"
    by (auto simp: getMatches_compiled[of RegExp userRegexString m g, OF assms(1)])
  from rows_loop_partial[OF assms(2) this] show ?thesis by (simp add: findMatches_def)
qed

lemma getMatches_total:
  assumes "RegExp userRegexString = Some m"
    and "\<forall>s\<in>set g. \<forall>p e. m s p = Some e \<longrightarrow> p < e"
  shows "\<exists>locs. getMatches RegExp userRegexString g = Some (Inr locs)"
proof -
  have "\<And>s p e. s \<in> set g \<Longrightarrow> m s p = Some e \<Longrightarrow> p < e" using assms(2) by blast
  then have "\<exists>res. rows_loop m g 0 0 [] = Some res" by (rule rows_loop_total)
  then show ?thesis
    by (auto simp: getMatches_compiled[of RegExp userRegexString m g, OF assms(1)])
qed

lemma getMatches_example:
  "getMatches (\<lambda>p. Some (literal p)) ''A'' [''AABAA''] =
     Some (Inr [(0, 0), (0, 1), (0, 3), (0, 4)])"
  by (simp add: getMatches_def match_loop.simps exec_def search.simps literal_def)


section \<open>The claims\<close>

text \<open>
  Claim C2. On a well-formed grid \<^verbatim>\<open>arrayShift\<close> returns, the grid stays
  well-formed, and every column ends as its removed cells on top followed by its
  other characters in their original top-to-bottom order, however many removed cells
  the column holds.
\<close>

theorem arrayShift_settles_columns:
  assumes "wf_grid g"
  shows "\<exists>g'. arrayShift g = Inr g' \<and> wf_grid g' \<and>
           (\<forall>c<CHAR_PER_ROW. column c g' =
              replicate (length (filter (\<lambda>x. x = REMOVED_CHAR_SYMBOL) (column c g)))
                REMOVED_CHAR_SYMBOL
              @ filter (\<lambda>x. x \<noteq> REMOVED_CHAR_SYMBOL) (column c g))"
  using assms by (rule arrayShift_columns)

theorem arrayShift_settles_columns_witness:
  "wf_grid example_grid \<and>
   (\<exists>g'. arrayShift example_grid = Inr g' \<and> wf_grid g' \<and>
          column 1 g' = ''   BLQBLGQ'' \<and> column 2 g' = '' AMWHRMWHR'')"
proof -
  obtain g' where g': "arrayShift example_grid = Inr g'" "wf_grid g'"
    and cols: "\<forall>c<CHAR_PER_ROW. column c g' =
              replicate (length (filter (\<lambda>x. x = REMOVED_CHAR_SYMBOL) (column c example_grid)))
                REMOVED_CHAR_SYMBOL
              @ filter (\<lambda>x. x \<noteq> REMOVED_CHAR_SYMBOL) (column c example_grid)"
    using arrayShift_settles_columns[OF wf_example_grid] by blast
  have "column 1 g' = ''   BLQBLGQ''"
    using cols[rule_format, of 1]
    by (simp add: CHAR_PER_ROW_def column_def example_grid_def REMOVED_CHAR_SYMBOL_def)
  moreover have "column 2 g' = '' AMWHRMWHR''"
    using cols[rule_format, of 2]
    by (simp add: CHAR_PER_ROW_def column_def example_grid_def REMOVED_CHAR_SYMBOL_def)
  ultimately show ?thesis using g' wf_example_grid by blast
qed

text \<open>
  Claim C5. Collapse is column-local: in every column of a well-formed grid the
  multiset of characters other than the removed symbol is the same before and after
  \<^verbatim>\<open>arrayShift\<close>.
\<close>

theorem arrayShift_column_local:
  assumes "wf_grid g" "c < CHAR_PER_ROW"
  shows "\<exists>g'. arrayShift g = Inr g' \<and>
           mset (filter (\<lambda>x. x \<noteq> REMOVED_CHAR_SYMBOL) (column c g')) =
           mset (filter (\<lambda>x. x \<noteq> REMOVED_CHAR_SYMBOL) (column c g))"
proof -
  obtain g' where g': "arrayShift g = Inr g'"
    and col: "column c g' =
              replicate (length (filter (\<lambda>x. x = REMOVED_CHAR_SYMBOL) (column c g)))
                REMOVED_CHAR_SYMBOL
              @ filter (\<lambda>x. x \<noteq> REMOVED_CHAR_SYMBOL) (column c g)"
    using arrayShift_columns[OF assms(1)] assms(2) by blast
  have "filter (\<lambda>x. x \<noteq> REMOVED_CHAR_SYMBOL) (column c g') =
        filter (\<lambda>x. x \<noteq> REMOVED_CHAR_SYMBOL) (column c g)"
    unfolding col by simp
  then have "mset (filter (\<lambda>x. x \<noteq> REMOVED_CHAR_SYMBOL) (column c g')) =
        mset (filter (\<lambda>x. x \<noteq> REMOVED_CHAR_SYMBOL) (column c g))"
    by (rule arg_cong)
  with g' show ?thesis by blast
qed

theorem arrayShift_column_local_witness:
  "wf_grid example_grid \<and> 1 < CHAR_PER_ROW \<and>
   (\<exists>g'. arrayShift example_grid = Inr g' \<and>
          mset (filter (\<lambda>x. x \<noteq> REMOVED_CHAR_SYMBOL) (column 1 g')) = mset ''BLQBLGQ'')"
proof -
  have c: "1 < CHAR_PER_ROW" by (simp add: CHAR_PER_ROW_def)
  have "filter (\<lambda>x. x \<noteq> REMOVED_CHAR_SYMBOL) (column 1 example_grid) = ''BLQBLGQ''"
    by (simp add: column_def example_grid_def REMOVED_CHAR_SYMBOL_def)
  then have "mset (filter (\<lambda>x. x \<noteq> REMOVED_CHAR_SYMBOL) (column 1 example_grid)) =
      mset ''BLQBLGQ''"
    by (rule arg_cong)
  then show ?thesis
    using arrayShift_column_local[OF wf_example_grid c] wf_example_grid c
    by (simp only:)
qed

text \<open>
  Claim C4. For a well-formed grid and match locations that name cells of the grid
  (and random numbers as \<^verbatim>\<open>Math.random\<close> gives them), removal, then collapse,
  then refill returns a grid that is again \<^verbatim>\<open>NUM_ROWS\<close> rows of
  \<^verbatim>\<open>CHAR_PER_ROW\<close> characters and holds no removed cell.
\<close>

theorem remove_collapse_refill_restores:
  assumes "wf_grid g" "in_grid ms" "unit_interval rnd"
  shows "\<exists>g' rnd'. remove_collapse_refill ms g rnd = Inr (g', rnd') \<and>
           wf_grid g' \<and> no_sentinel g'"
  using assms by (rule pipeline_ok)

theorem remove_collapse_refill_restores_witness:
  "wf_grid full_grid \<and> in_grid [(0, 0), (0, 1), (0, 4), (0, 5)] \<and>
   unit_interval (\<lambda>n. 1 / 2) \<and>
   (\<exists>g' rnd'. remove_collapse_refill [(0, 0), (0, 1), (0, 4), (0, 5)] full_grid
                 (\<lambda>n. 1 / 2) = Inr (g', rnd') \<and>
               wf_grid g' \<and> no_sentinel g')"
proof -
  have m: "in_grid [(0, 0), (0, 1), (0, 4), (0, 5)]"
    by (simp add: in_grid_def NUM_ROWS_def CHAR_PER_ROW_def)
  show ?thesis
    using remove_collapse_refill_restores[OF wf_full_grid m unit_interval_half]
      wf_full_grid m unit_interval_half by simp
qed

text \<open>
  Claim C7 says the alphabet is the 26 letters A to Z. The load-time call passes
  \<^verbatim>\<open>maxChar\<close> = 90 (the code of Z, documented as the maximum character to use) as
  the exclusive bound of the loop, so the alphabet the program computes is the 25
  letters A to Y.
\<close>

theorem alphabet_stops_at_Y:
  "POSSIBLE_ASCII_CHARACTERS = ''ABCDEFGHIJKLMNOPQRSTUVWXY'' \<and>
   length POSSIBLE_ASCII_CHARACTERS = 25 \<and>
   CHR ''Z'' \<notin> set POSSIBLE_ASCII_CHARACTERS \<and>
   char_of maxChar = CHR ''Z''"
proof -
  have "char_of maxChar = CHR ''Z''" unfolding maxChar_def by code_simp
  then show ?thesis by (simp add: POSSIBLE_value)
qed

text \<open>
  Claim C9. \<^verbatim>\<open>generateCharacter\<close> never returns the removed symbol: what it returns
  is drawn from \<^verbatim>\<open>POSSIBLE_ASCII_CHARACTERS\<close>, which does not hold the symbol, and
  for a random number in the unit interval it is exactly one such character. So
  neither populating (\<^verbatim>\<open>generateCharDisplay\<close>) nor refilling
  (\<^verbatim>\<open>replaceCharacters\<close>) writes a removed symbol: a row of the populated grid is
  the old row or free of the symbol, and a row of the refilled grid is free of it
  (rows beyond \<^verbatim>\<open>NUM_ROWS\<close> are left as they were).
\<close>

theorem generateCharacter_never_sentinel:
  "generateCharacter r \<noteq> [REMOVED_CHAR_SYMBOL] \<and>
   set (generateCharacter r) \<subseteq> set POSSIBLE_ASCII_CHARACTERS \<and>
   REMOVED_CHAR_SYMBOL \<notin> set POSSIBLE_ASCII_CHARACTERS \<and>
   (0 \<le> r \<and> r < 1 \<longrightarrow>
      (\<exists>c\<in>set POSSIBLE_ASCII_CHARACTERS. c \<noteq> REMOVED_CHAR_SYMBOL \<and> generateCharacter r = [c])) \<and>
   length g \<le> length (fst (generateCharDisplay g rnd)) \<and>
   (\<forall>i<length (fst (generateCharDisplay g rnd)).
      (i < length g \<and> fst (generateCharDisplay g rnd) ! i = g ! i) \<or>
      REMOVED_CHAR_SYMBOL \<notin> set (fst (generateCharDisplay g rnd) ! i)) \<and>
   (\<forall>g' rnd'. replaceCharacters g rnd = Inr (g', rnd') \<longrightarrow>
      length g' = length g \<and>
      (\<forall>i<length g. (NUM_ROWS \<le> i \<and> g' ! i = g ! i) \<or> REMOVED_CHAR_SYMBOL \<notin> set (g' ! i)))"
proof (intro conjI)
  show "generateCharacter r \<noteq> [REMOVED_CHAR_SYMBOL]"
    using generateCharacter_no_sentinel[of r] by auto
  show "set (generateCharacter r) \<subseteq> set POSSIBLE_ASCII_CHARACTERS"
    by (rule generateCharacter_subset)
  show "REMOVED_CHAR_SYMBOL \<notin> set POSSIBLE_ASCII_CHARACTERS"
    by (rule sentinel_not_possible)
  show "0 \<le> r \<and> r < 1 \<longrightarrow>
      (\<exists>c\<in>set POSSIBLE_ASCII_CHARACTERS. c \<noteq> REMOVED_CHAR_SYMBOL \<and> generateCharacter r = [c])"
    using generateCharacter_unit[of r] sentinel_not_possible by metis
  show "length g \<le> length (fst (generateCharDisplay g rnd))"
    using fill_rows_frame[of g 0 NUM_ROWS rnd] by (simp add: generateCharDisplay_def)
  show "\<forall>i<length (fst (generateCharDisplay g rnd)).
      (i < length g \<and> fst (generateCharDisplay g rnd) ! i = g ! i) \<or>
      REMOVED_CHAR_SYMBOL \<notin> set (fst (generateCharDisplay g rnd) ! i)"
    using fill_rows_frame[of g 0 NUM_ROWS rnd] by (simp add: generateCharDisplay_def)
  show "\<forall>g' rnd'. replaceCharacters g rnd = Inr (g', rnd') \<longrightarrow>
      length g' = length g \<and>
      (\<forall>i<length g. (NUM_ROWS \<le> i \<and> g' ! i = g ! i) \<or> REMOVED_CHAR_SYMBOL \<notin> set (g' ! i))"
  proof (intro allI impI)
    fix g' rnd' assume r: "replaceCharacters g rnd = Inr (g', rnd')"
    then have len: "NUM_ROWS \<le> length g" and g': "g' = fst (replace_rows 0 NUM_ROWS g rnd)"
      by (auto simp: replaceCharacters_def split: if_splits)
    from len have b: "0 + NUM_ROWS \<le> length g" by simp
    note fr = replace_rows_frame[OF b, of rnd]
    show "length g' = length g \<and>
      (\<forall>i<length g. (NUM_ROWS \<le> i \<and> g' ! i = g ! i) \<or> REMOVED_CHAR_SYMBOL \<notin> set (g' ! i))"
    proof (intro conjI allI impI)
      show "length g' = length g" using fr g' by simp
    next
      fix i assume i: "i < length g"
      show "(NUM_ROWS \<le> i \<and> g' ! i = g ! i) \<or> REMOVED_CHAR_SYMBOL \<notin> set (g' ! i)"
      proof (cases "NUM_ROWS \<le> i")
        case True
        then show ?thesis using fr i g' by simp
      next
        case False
        then show ?thesis using fr i g' by simp
      qed
    qed
  qed
qed

theorem generateCharacter_never_sentinel_witness:
  "(0::real) \<le> 1 / 2 \<and> (1 / 2 :: real) < 1 \<and>
   (\<exists>c\<in>set POSSIBLE_ASCII_CHARACTERS. c \<noteq> REMOVED_CHAR_SYMBOL \<and> generateCharacter (1 / 2) = [c]) \<and>
   2 < length (fst (generateCharDisplay example_grid (\<lambda>n. 1 / 2))) \<and>
   (fst (generateCharDisplay example_grid (\<lambda>n. 1 / 2)) ! 2 = example_grid ! 2 \<or>
    REMOVED_CHAR_SYMBOL \<notin> set (fst (generateCharDisplay example_grid (\<lambda>n. 1 / 2)) ! 2)) \<and>
   (\<exists>g' rnd'. replaceCharacters example_grid (\<lambda>n. 1 / 2) = Inr (g', rnd') \<and>
      REMOVED_CHAR_SYMBOL \<notin> set (g' ! 2))"
proof -
  let ?rnd = "\<lambda>n::nat. 1 / 2 :: real"
  note th = generateCharacter_never_sentinel[of "1 / 2" example_grid ?rnd]
  have r: "(0::real) \<le> 1 / 2 \<and> (1 / 2 :: real) < 1" by simp
  have a: "\<exists>c\<in>set POSSIBLE_ASCII_CHARACTERS. c \<noteq> REMOVED_CHAR_SYMBOL \<and> generateCharacter (1 / 2) = [c]"
    using th r by blast
  have l: "2 < length (fst (generateCharDisplay example_grid ?rnd))"
    using th length_example_grid by (simp add: NUM_ROWS_def)
  have b: "fst (generateCharDisplay example_grid ?rnd) ! 2 = example_grid ! 2 \<or>
    REMOVED_CHAR_SYMBOL \<notin> set (fst (generateCharDisplay example_grid ?rnd) ! 2)"
    using th l by blast
  have e: "replaceCharacters example_grid ?rnd =
            Inr (fst (replace_rows 0 NUM_ROWS example_grid ?rnd),
                 snd (replace_rows 0 NUM_ROWS example_grid ?rnd))"
    using length_example_grid by (simp add: replaceCharacters_def)
  have i2: "2 < length example_grid" "\<not> NUM_ROWS \<le> 2"
    using length_example_grid by (simp_all add: NUM_ROWS_def)
  have "REMOVED_CHAR_SYMBOL \<notin> set (fst (replace_rows 0 NUM_ROWS example_grid ?rnd) ! 2)"
    using th e i2 by blast
  with e have c: "\<exists>g' rnd'. replaceCharacters example_grid ?rnd = Inr (g', rnd') \<and>
      REMOVED_CHAR_SYMBOL \<notin> set (g' ! 2)" by blast
  from r a l b c show ?thesis by blast
qed

text \<open>
  Claim C3, as amended. The claim is worded for every pattern; it holds for the
  patterns none of whose matches on a row of the grid is empty. For a compiled pattern
  \<open>m\<close> (with what the platform guarantees of it), whatever \<^verbatim>\<open>getMatches\<close>
  returns is the result of \<open>findMatches\<close>: each row scanned on its own from
  position 0, every match followed by a search from its end, one location per
  character of a match. The locations are inside the grid and in order (rows by index,
  columns left to right, none twice). Where no match is empty the function does
  return. Pattern \<^verbatim>\<open>A\<close> on the row \<^verbatim>\<open>AABAA\<close> gives the columns 0, 1, 3, 4.
\<close>

theorem getMatches_scans_rows:
  assumes "RegExp userRegexString = Some m" "regexp_contract m"
  shows "(\<forall>locs. getMatches RegExp userRegexString g = Some (Inr locs) \<longrightarrow>
            locs = findMatches m g \<and>
            (\<forall>(r, c)\<in>set locs. r < length g \<and> c < length (g ! r)) \<and>
            sorted_wrt loc_less locs) \<and>
         ((\<forall>s\<in>set g. \<forall>p e. m s p = Some e \<longrightarrow> p < e) \<longrightarrow>
            getMatches RegExp userRegexString g = Some (Inr (findMatches m g))) \<and>
         getMatches (\<lambda>p. Some (literal p)) ''A'' [''AABAA''] =
           Some (Inr [(0, 0), (0, 1), (0, 3), (0, 4)])"
proof (intro conjI allI impI)
  fix locs assume r: "getMatches RegExp userRegexString g = Some (Inr locs)"
  show eq: "locs = findMatches m g"
    by (rule getMatches_partial[of RegExp userRegexString m g locs, OF assms r])
  show "\<forall>(r, c)\<in>set locs. r < length g \<and> c < length (g ! r)"
    unfolding eq using findMatches_in_bounds[OF assms(2)] by blast
  show "sorted_wrt loc_less locs"
    unfolding eq by (rule findMatches_sorted[OF assms(2)])
next
  assume "\<forall>s\<in>set g. \<forall>p e. m s p = Some e \<longrightarrow> p < e"
  from getMatches_total[of RegExp userRegexString m g, OF assms(1) this]
  obtain locs where r: "getMatches RegExp userRegexString g = Some (Inr locs)" by blast
  with getMatches_partial[of RegExp userRegexString m g locs, OF assms r]
  show "getMatches RegExp userRegexString g = Some (Inr (findMatches m g))" by simp
next
  show "getMatches (\<lambda>p. Some (literal p)) ''A'' [''AABAA''] =
           Some (Inr [(0, 0), (0, 1), (0, 3), (0, 4)])"
    by (rule getMatches_example)
qed

theorem getMatches_scans_rows_witness:
  "(\<lambda>p. Some (literal p)) ''AB'' = Some (literal ''AB'') \<and>
   regexp_contract (literal ''AB'') \<and>
   getMatches (\<lambda>p. Some (literal p)) ''AB'' full_grid =
     Some (Inr (findMatches (literal ''AB'') full_grid)) \<and>
   getMatches (\<lambda>p. Some (literal p)) ''AB'' full_grid =
     Some (Inr [(0, 0), (0, 1), (0, 4), (0, 5)]) \<and>
   sorted_wrt loc_less (findMatches (literal ''AB'') full_grid)"
proof -
  have c: "(\<lambda>p. Some (literal p)) ''AB'' = Some (literal ''AB'')" by simp
  have pos: "\<forall>s\<in>set full_grid. \<forall>p e. literal ''AB'' s p = Some e \<longrightarrow> p < e"
    using literal_positive[of "''AB''"] by blast
  note th = getMatches_scans_rows[of "\<lambda>p. Some (literal p)" "''AB''" "literal ''AB''" full_grid,
      OF c literal_contract]
  have eq: "getMatches (\<lambda>p. Some (literal p)) ''AB'' full_grid =
     Some (Inr (findMatches (literal ''AB'') full_grid))"
    using th pos by blast
  have ev: "getMatches (\<lambda>p. Some (literal p)) ''AB'' full_grid =
     Some (Inr [(0, 0), (0, 1), (0, 4), (0, 5)])"
    by (simp add: getMatches_def full_grid_def match_loop.simps exec_def search.simps literal_def)
  have "sorted_wrt loc_less (findMatches (literal ''AB'') full_grid)"
    using th eq by blast
  with c literal_contract eq ev show ?thesis by blast
qed

text \<open>
  Claim C3 as worded fails for a pattern with an empty match. The pattern
  \<^verbatim>\<open>A*\<close> on the row \<^verbatim>\<open>AAB\<close> matches the two letters A, then matches the empty
  string at position 2 and leaves \<^verbatim>\<open>lastIndex\<close> there: the loop never ends and
  \<^verbatim>\<open>getMatches\<close> returns no location at all, where the scan of the specification
  gives the columns 0 and 1.
\<close>

theorem getMatches_star_never_returns:
  "regexp_contract (star CHR ''A'') \<and>
   getMatches (\<lambda>p. Some (star CHR ''A'')) ''A*'' [''AAB''] = None \<and>
   findMatches (star CHR ''A'') [''AAB''] = [(0, 0), (0, 1)]"
proof -
  have s0: "search (star CHR ''A'') ''AAB'' 0 = Some (0, 2)"
    by (simp add: search.simps star_def)
  have s2: "search (star CHR ''A'') ''AAB'' 2 = Some (2, 2)"
    by (simp add: search.simps star_def)
  have "match_loop (star CHR ''A'') ''AAB'' 0 2 [(0, 0), (0, 1)] = None"
    using s2 by (rule match_loop_diverges)
  then have "match_loop (star CHR ''A'') ''AAB'' 0 0 [] = None"
    using s0 by (simp add: match_loop.simps[of _ _ 0 0 "[]"] exec_def)
  then have a: "getMatches (\<lambda>p. Some (star CHR ''A'')) ''A*'' [''AAB''] = None"
    by (simp add: getMatches_def)
  have "scan (star CHR ''A'') ''AAB'' 0 = [(0, 2)]"
    using s0 s2 by (simp add: scan.simps[of _ _ 0] scan.simps[of _ _ 2])
  then have b: "findMatches (star CHR ''A'') [''AAB''] = [(0, 0), (0, 1)]"
    by (simp add: findMatches_def locations_of_def upt_rec)
  from star_contract a b show ?thesis by blast
qed



text \<open>
  Claim C1 says each location's own cell is replaced and no other. The program
  reads the character at the location and calls \<^verbatim>\<open>replace\<close> with it, which
  replaces the first occurrence of that character in the row. With the pattern
  \<^verbatim>\<open>AB\<close> on the row \<^verbatim>\<open>ABACABDEFG\<close> the match locations are the columns 0, 1, 4, 5;
  the cells removed are 0, 1, 2 and 5: the A in column 2 is lost and the A in column 4
  stays.
\<close>

theorem removeCharacters_first_occurrence:
  "getMatches (\<lambda>p. Some (literal p)) ''AB'' full_grid =
     Some (Inr [(0, 0), (0, 1), (0, 4), (0, 5)]) \<and>
   removeCharacters [(0, 0), (0, 1), (0, 4), (0, 5)] full_grid =
     Inr (full_grid[0 := ''   CA DEFG'']) \<and>
   full_grid ! 0 = ''ABACABDEFG''"
  by (simp add: getMatches_def full_grid_def match_loop.simps exec_def search.simps literal_def
      REMOVED_CHAR_SYMBOL_def)

text \<open>
  Claim C6 says that after a pattern that does not compile the cycle is back at
  IDLE, ready for a new one. The exception does leave \<^verbatim>\<open>execute\<close> before any
  match is attempted, with the grid as it was and no callback scheduled; but
  \<^verbatim>\<open>runButtonClick\<close> has disabled the run button and \<^verbatim>\<open>reset\<close>, which both
  other paths call, is not reached: the button stays disabled.
\<close>

theorem invalid_pattern_keeps_button_disabled:
  "runButtonClick (\<lambda>p. if p = ''('' then None else Some (literal p)) ''('' idle_state =
     Some (Threw SyntaxError,
           \<lparr>rowArray = full_grid, runButton_disabled = True, timeouts = []\<rparr>)"
  by (simp add: runButtonClick_def execute_def getMatches_def idle_state_def)

text \<open>
  Claim C8. A cycle whose match collection is empty returns with the grid as it
  was, no callback scheduled and the run button enabled again.
\<close>

theorem no_match_no_mutation:
  assumes "getMatches RegExp userRegexString (rowArray st) = Some (Inr [])"
  shows "\<exists>st'. runButtonClick RegExp userRegexString st = Some (Returned, st') \<and>
           rowArray st' = rowArray st \<and> timeouts st' = timeouts st \<and>
           \<not> runButton_disabled st'"
  using assms by (simp add: runButtonClick_def execute_def reset_def)

theorem no_match_no_mutation_witness:
  "getMatches (\<lambda>p. Some (literal p)) ''Z'' (rowArray idle_state) = Some (Inr []) \<and>
   (\<exists>st'. runButtonClick (\<lambda>p. Some (literal p)) ''Z'' idle_state = Some (Returned, st') \<and>
           rowArray st' = full_grid \<and> timeouts st' = [] \<and> \<not> runButton_disabled st')"
proof -
  have g: "getMatches (\<lambda>p. Some (literal p)) ''Z'' (rowArray idle_state) = Some (Inr [])"
    by (simp add: getMatches_def idle_state_def full_grid_def match_loop.simps exec_def
        search.simps literal_def)
  have r: "rowArray idle_state = full_grid" "timeouts idle_state = []"
    by (simp_all add: idle_state_def)
  from no_match_no_mutation[OF g] g r show ?thesis by simp
qed

end
